theory Spec2Isabelle
  imports Main "HOL-Library.Word" "HOL-Library.Sublist"
begin

section \<open>Handles and the process-wide counter\<close>

text \<open>
  \<^verbatim>\<open>FDelegateHandle\<close> wraps one \<^verbatim>\<open>uint64_t DelegateID\<close>; its default constructor
  stores 0, \<^verbatim>\<open>IsValid\<close> tests for a value other than 0 and the comparison operators
  compare the identifiers. A handle is therefore modelled by its 64-bit identifier.
  Pointers (object pointers, function pointers, member function pointers, the targets
  of weak pointers and the contents of a \<^verbatim>\<open>std::function\<close>) are natural numbers, with
  0 for \<^verbatim>\<open>nullptr\<close> and for an empty weak pointer or function wrapper.
\<close>

type_synonym FDelegateHandle = "64 word"

abbreviation (input) nullptr :: nat where
  "nullptr \<equiv> 0"

definition DefaultHandle :: FDelegateHandle where
  "DefaultHandle = 0"

definition IsValid :: "FDelegateHandle \<Rightarrow> bool" where
  "IsValid h = (h \<noteq> 0)"

section \<open>Binding instances\<close>

text \<open>
  The four final subclasses of \<^verbatim>\<open>TDelegateInstanceBase\<close>, with their fields in
  declaration order. No member function of an instance writes a field after
  construction, so a \<^verbatim>\<open>std::shared_ptr\<close> to an instance is modelled by the instance
  value: copying the pointer (as the snapshot of a broadcast does) copies the value,
  and both copies read the same liveness information from the world below.

  \<^verbatim>\<open>AddLambda\<close> names the instance type as
  \<^verbatim>\<open>TLambdaDelegateInstance<RetType, ArgsType..., Func>\<close> while the template is declared
  with the parameters \<^verbatim>\<open><RetType, Func, ArgsType...>\<close>, so the two agree only for a
  signature without parameters. The model keeps the lambda instance for every
  argument type \<open>'a\<close>, \<^typ>\<open>unit\<close> among them.
\<close>

datatype DelegateInstance =
    TStaticDelegateInstance nat FDelegateHandle
  | TRawDelegateInstance nat nat FDelegateHandle
  | TWeakDelegateInstance nat nat FDelegateHandle
  | TLambdaDelegateInstance nat FDelegateHandle

text \<open>
  \<^verbatim>\<open>std::weak_ptr::expired\<close>, given the set of objects that still have an owner. An
  object that has lost its last owner does not come back (a new object is another
  number). The set says nothing about objects reached through raw pointers: the raw
  instance checks its pointers against \<^verbatim>\<open>nullptr\<close> only, and keeping the object alive is
  left to the caller.
\<close>

definition expired :: "nat set \<Rightarrow> nat \<Rightarrow> bool" where
  "expired alive wp = (wp = nullptr \<or> wp \<notin> alive)"

fun IsSafeToExecute :: "nat set \<Rightarrow> DelegateInstance \<Rightarrow> bool" where
  "IsSafeToExecute alive (TStaticDelegateInstance InFn h) = (InFn \<noteq> nullptr)"
| "IsSafeToExecute alive (TRawDelegateInstance ClassPtr Method h) =
     (ClassPtr \<noteq> nullptr \<and> Method \<noteq> nullptr)"
| "IsSafeToExecute alive (TWeakDelegateInstance Weak Method h) =
     (\<not> expired alive Weak \<and> Method \<noteq> nullptr)"
| "IsSafeToExecute alive (TLambdaDelegateInstance Fn h) = (Fn \<noteq> nullptr)"

definition IsCompactable :: "nat set \<Rightarrow> DelegateInstance \<Rightarrow> bool" where
  "IsCompactable alive I = (\<not> IsSafeToExecute alive I)"

fun Instance_GetHandle :: "DelegateInstance \<Rightarrow> FDelegateHandle" where
  "Instance_GetHandle (TStaticDelegateInstance InFn h) = h"
| "Instance_GetHandle (TRawDelegateInstance ClassPtr Method h) = h"
| "Instance_GetHandle (TWeakDelegateInstance Weak Method h) = h"
| "Instance_GetHandle (TLambdaDelegateInstance Fn h) = h"

section \<open>Unicast delegates and multicast entries\<close>

record TDelegate =
  Instance :: "DelegateInstance option"

record FEntry =
  Handle :: FDelegateHandle
  Delegate :: TDelegate
  Owner :: nat

definition IsBound :: "nat set \<Rightarrow> TDelegate \<Rightarrow> bool" where
  "IsBound alive d =
     (case Instance d of None \<Rightarrow> False | Some I \<Rightarrow> IsSafeToExecute alive I)"

definition Unbind :: "TDelegate \<Rightarrow> TDelegate" where
  "Unbind d = d\<lparr>Instance := None\<rparr>"

definition GetHandle :: "TDelegate \<Rightarrow> FDelegateHandle" where
  "GetHandle d =
     (case Instance d of Some I \<Rightarrow> Instance_GetHandle I | None \<Rightarrow> DefaultHandle)"

section \<open>The world\<close>

text \<open>
  The state the operations read and write: the atomic counter \<^verbatim>\<open>GDelegateNextID\<close>,
  the set of objects that are still owned by some \<^verbatim>\<open>std::shared_ptr\<close> (what
  \<^verbatim>\<open>weak_ptr::expired\<close> reads), and the \<^verbatim>\<open>Entries\<close> vector of the multicast delegate
  under study. Two fields are instrumentation that no operation reads: \<open>Issued\<close>
  counts the calls of \<^verbatim>\<open>GenerateNewID\<close> made so far, and \<open>Invoked\<close> records every
  call of a bound function together with the arguments it received.
\<close>

record 'a world =
  GDelegateNextID :: "64 word"
  Issued :: nat
  Alive :: "nat set"
  Entries :: "FEntry list"
  Invoked :: "(DelegateInstance \<times> 'a) list"

definition initial :: "nat set \<Rightarrow> 'a world" where
  "initial alive =
     \<lparr>GDelegateNextID = 1, Issued = 0, Alive = alive, Entries = [], Invoked = []\<rparr>"

text \<open>\<^verbatim>\<open>fetch_add(1)\<close> returns the old value; the addition wraps at \<open>2 ^ 64\<close>.\<close>

definition GenerateNewID :: "'a world \<Rightarrow> FDelegateHandle \<times> 'a world" where
  "GenerateNewID w =
     (GDelegateNextID w,
      w\<lparr>GDelegateNextID := GDelegateNextID w + 1, Issued := Suc (Issued w)\<rparr>)"

subsection \<open>Binding a unicast delegate\<close>

text \<open>
  Each bind operation constructs a fresh instance, whose constructor draws a handle,
  and replaces whatever the delegate held.
\<close>

definition BindStatic :: "nat \<Rightarrow> TDelegate \<Rightarrow> 'a world \<Rightarrow> TDelegate \<times> 'a world" where
  "BindStatic InFn d w =
     (case GenerateNewID w of
        (h, w1) \<Rightarrow> (d\<lparr>Instance := Some (TStaticDelegateInstance InFn h)\<rparr>, w1))"

definition TDelegate_AddRaw ::
  "nat \<Rightarrow> nat \<Rightarrow> TDelegate \<Rightarrow> 'a world \<Rightarrow> TDelegate \<times> 'a world" where
  "TDelegate_AddRaw InObjPtr InMethod d w =
     (case GenerateNewID w of
        (h, w1) \<Rightarrow> (d\<lparr>Instance := Some (TRawDelegateInstance InObjPtr InMethod h)\<rparr>, w1))"

definition TDelegate_AddWeak ::
  "nat \<Rightarrow> nat \<Rightarrow> TDelegate \<Rightarrow> 'a world \<Rightarrow> TDelegate \<times> 'a world" where
  "TDelegate_AddWeak InWeak InMethod d w =
     (case GenerateNewID w of
        (h, w1) \<Rightarrow> (d\<lparr>Instance := Some (TWeakDelegateInstance InWeak InMethod h)\<rparr>, w1))"

definition TDelegate_AddLambda :: "nat \<Rightarrow> TDelegate \<Rightarrow> 'a world \<Rightarrow> TDelegate \<times> 'a world" where
  "TDelegate_AddLambda InLambdaFunc d w =
     (case GenerateNewID w of
        (h, w1) \<Rightarrow> (d\<lparr>Instance := Some (TLambdaDelegateInstance InLambdaFunc h)\<rparr>, w1))"

section \<open>The multicast delegate\<close>

definition Multicast_IsBound :: "'a world \<Rightarrow> bool" where
  "Multicast_IsBound w = (Entries w \<noteq> [])"

definition Clear :: "'a world \<Rightarrow> 'a world" where
  "Clear w = w\<lparr>Entries := []\<rparr>"

definition AddInternal :: "TDelegate \<Rightarrow> nat \<Rightarrow> 'a world \<Rightarrow> FDelegateHandle \<times> 'a world" where
  "AddInternal InDelegate InOwner w =
     (case (if \<not> IsValid (GetHandle InDelegate) then GenerateNewID w
            else (GetHandle InDelegate, w)) of
        (h, w1) \<Rightarrow>
          (h, w1\<lparr>Entries :=
                   Entries w1 @ [\<lparr>Handle = h, Delegate = InDelegate, Owner = InOwner\<rparr>]\<rparr>))"

definition AddStatic :: "nat \<Rightarrow> 'a world \<Rightarrow> FDelegateHandle \<times> 'a world" where
  "AddStatic Fn w =
     (case BindStatic Fn \<lparr>Instance = None\<rparr> w of (D, w1) \<Rightarrow> AddInternal D nullptr w1)"

definition AddRaw :: "nat \<Rightarrow> nat \<Rightarrow> 'a world \<Rightarrow> FDelegateHandle \<times> 'a world" where
  "AddRaw InObjPtr InMethod w =
     (case TDelegate_AddRaw InObjPtr InMethod \<lparr>Instance = None\<rparr> w of
        (D, w1) \<Rightarrow> AddInternal D InObjPtr w1)"

definition AddWeak :: "nat \<Rightarrow> nat \<Rightarrow> 'a world \<Rightarrow> FDelegateHandle \<times> 'a world" where
  "AddWeak InWeak InMethod w =
     (case TDelegate_AddWeak InWeak InMethod \<lparr>Instance = None\<rparr> w of
        (D, w1) \<Rightarrow> AddInternal D nullptr w1)"

definition AddLambda :: "nat \<Rightarrow> 'a world \<Rightarrow> FDelegateHandle \<times> 'a world" where
  "AddLambda InFunc w =
     (case TDelegate_AddLambda InFunc \<lparr>Instance = None\<rparr> w of
        (D, w1) \<Rightarrow> AddInternal D nullptr w1)"

text \<open>
  \<^verbatim>\<open>std::find_if\<close> as the position of the first match (the length of the list for
  \<^verbatim>\<open>end()\<close>), \<^verbatim>\<open>vector::erase\<close> of one position, and the erase/remove-if idiom,
  which keeps the elements that fail the predicate in their order.
\<close>

fun find_if :: "('e \<Rightarrow> bool) \<Rightarrow> 'e list \<Rightarrow> nat" where
  "find_if p [] = 0"
| "find_if p (x # xs) = (if p x then 0 else Suc (find_if p xs))"

definition erase :: "nat \<Rightarrow> 'e list \<Rightarrow> 'e list" where
  "erase i xs = take i xs @ drop (Suc i) xs"

fun erase_remove_if :: "('e \<Rightarrow> bool) \<Rightarrow> 'e list \<Rightarrow> 'e list" where
  "erase_remove_if p [] = []"
| "erase_remove_if p (x # xs) =
     (if p x then erase_remove_if p xs else x # erase_remove_if p xs)"

definition Remove :: "FDelegateHandle \<Rightarrow> 'a world \<Rightarrow> 'a world" where
  "Remove InHandle w =
     (let Iter = find_if (\<lambda>E. Handle E = InHandle) (Entries w)
      in if Iter \<noteq> length (Entries w) then w\<lparr>Entries := erase Iter (Entries w)\<rparr> else w)"

definition RemoveAll :: "nat \<Rightarrow> 'a world \<Rightarrow> 'a world" where
  "RemoveAll InOwner w =
     (if InOwner = nullptr then w
      else w\<lparr>Entries := erase_remove_if (\<lambda>E. Owner E = InOwner) (Entries w)\<rparr>)"

section \<open>Bound functions and what they may do\<close>

text \<open>
  The code that a binding calls belongs to the client. It is identified by what is
  called, and it is described by the calls it makes while it runs: the operations
  of the multicast delegate that is broadcasting, a bind on some other delegate
  (which only draws a handle), and the release of the last owner of an object (which
  makes every weak pointer to that object expire). Bound functions return normally
  (they throw no exception) and do not start a nested broadcast. What a bound
  function does may depend on the arguments it receives.

  Two traits of the signature travel with the client code. The result type \<open>'r\<close> is
  the \<^verbatim>\<open>RetType\<close> (\<^typ>\<open>unit\<close> for \<^verbatim>\<open>void\<close>) and \<open>RetDefault\<close> its value-initialised
  \<^verbatim>\<open>RetType{}\<close>. The argument type \<open>'a\<close> is the whole parameter pack, and
  \<open>MovedFrom\<close> gives the value a by-value parameter pack is left with once
  \<^verbatim>\<open>std::forward<ArgsType>(Args)...\<close> has handed it to a callee that takes its
  parameters by value: the same value for parameters of trivially copyable type (the
  \<^verbatim>\<open>int\<close>s of the demonstration program) and of reference type, the moved-from value
  for a class type with a move constructor (for \<^verbatim>\<open>std::string\<close>, in practice, the
  empty string).
\<close>

datatype callee = FreeFunction nat | MemberFunction nat nat | Functor nat

fun Target :: "DelegateInstance \<Rightarrow> callee" where
  "Target (TStaticDelegateInstance InFn h) = FreeFunction InFn"
| "Target (TRawDelegateInstance ClassPtr Method h) = MemberFunction ClassPtr Method"
| "Target (TWeakDelegateInstance Weak Method h) = MemberFunction Weak Method"
| "Target (TLambdaDelegateInstance Fn h) = Functor Fn"

datatype action =
    CallAddStatic nat
  | CallAddRaw nat nat
  | CallAddWeak nat nat
  | CallAddLambda nat
  | CallRemove FDelegateHandle
  | CallRemoveAll nat
  | CallClear
  | BindElsewhere
  | DestroyObject nat

record ('a, 'r) program =
  Code :: "callee \<Rightarrow> 'a \<Rightarrow> action list \<times> 'r"
  RetDefault :: 'r
  MovedFrom :: "'a \<Rightarrow> 'a"

fun perform :: "action \<Rightarrow> 'a world \<Rightarrow> 'a world" where
  "perform (CallAddStatic Fn) w = snd (AddStatic Fn w)"
| "perform (CallAddRaw InObjPtr InMethod) w = snd (AddRaw InObjPtr InMethod w)"
| "perform (CallAddWeak InWeak InMethod) w = snd (AddWeak InWeak InMethod w)"
| "perform (CallAddLambda InFunc) w = snd (AddLambda InFunc w)"
| "perform (CallRemove InHandle) w = Remove InHandle w"
| "perform (CallRemoveAll InOwner) w = RemoveAll InOwner w"
| "perform CallClear w = Clear w"
| "perform BindElsewhere w = snd (GenerateNewID w)"
| "perform (DestroyObject p) w = w\<lparr>Alive := Alive w - {p}\<rparr>"

fun perform_all :: "action list \<Rightarrow> 'a world \<Rightarrow> 'a world" where
  "perform_all [] w = w"
| "perform_all (c # cs) w = perform_all cs (perform c w)"

text \<open>Calling the bound function of an instance: the call is recorded, its body runs.\<close>

definition call :: "('a, 'r) program \<Rightarrow> DelegateInstance \<Rightarrow> 'a \<Rightarrow> 'a world \<Rightarrow> 'a world \<times> 'r" where
  "call P I args w =
     (case Code P (Target I) args of
        (body, r) \<Rightarrow> (perform_all body (w\<lparr>Invoked := Invoked w @ [(I, args)]\<rparr>), r))"

section \<open>Execution\<close>

text \<open>
  A failed \<^verbatim>\<open>assert\<close> ends the program; it is the error value of the model (the
  model is that of a build with assertions enabled). The second error stands for
  \<^verbatim>\<open>Instance->Execute\<close> on a null \<^verbatim>\<open>Instance\<close>, which the test before it excludes.
\<close>

datatype error = AssertionFailed | NullDereference

definition Instance_Execute ::
  "('a, 'r) program \<Rightarrow> DelegateInstance \<Rightarrow> 'a \<Rightarrow> 'a world \<Rightarrow> error + 'a world \<times> 'r" where
  "Instance_Execute P I args w =
     (if \<not> IsSafeToExecute (Alive w) I then Inl AssertionFailed else Inr (call P I args w))"

text \<open>
  The static instance tests \<^verbatim>\<open>IsCompactable\<close> and then calls the function pointer
  itself; the raw instance tests \<^verbatim>\<open>IsCompactable\<close> and forwards to \<^verbatim>\<open>Execute\<close>; the
  weak and the lambda instance test \<^verbatim>\<open>IsSafeToExecute\<close> and forward to \<^verbatim>\<open>Execute\<close>.
\<close>

fun ExecuteIfSafe ::
  "('a, 'r) program \<Rightarrow> DelegateInstance \<Rightarrow> 'a \<Rightarrow> 'a world \<Rightarrow> error + 'a world \<times> 'r" where
  "ExecuteIfSafe P (TStaticDelegateInstance InFn h) args w =
     (if IsCompactable (Alive w) (TStaticDelegateInstance InFn h) then Inr (w, RetDefault P)
      else Inr (call P (TStaticDelegateInstance InFn h) args w))"
| "ExecuteIfSafe P (TRawDelegateInstance ClassPtr Method h) args w =
     (if IsCompactable (Alive w) (TRawDelegateInstance ClassPtr Method h)
      then Inr (w, RetDefault P)
      else Instance_Execute P (TRawDelegateInstance ClassPtr Method h) args w)"
| "ExecuteIfSafe P (TWeakDelegateInstance Weak Method h) args w =
     (if \<not> IsSafeToExecute (Alive w) (TWeakDelegateInstance Weak Method h)
      then Inr (w, RetDefault P)
      else Instance_Execute P (TWeakDelegateInstance Weak Method h) args w)"
| "ExecuteIfSafe P (TLambdaDelegateInstance Fn h) args w =
     (if \<not> IsSafeToExecute (Alive w) (TLambdaDelegateInstance Fn h)
      then Inr (w, RetDefault P)
      else Instance_Execute P (TLambdaDelegateInstance Fn h) args w)"

definition Execute ::
  "('a, 'r) program \<Rightarrow> TDelegate \<Rightarrow> 'a \<Rightarrow> 'a world \<Rightarrow> error + 'a world \<times> 'r" where
  "Execute P d args w =
     (if \<not> IsBound (Alive w) d then Inl AssertionFailed
      else case Instance d of
             None \<Rightarrow> Inl NullDereference
           | Some I \<Rightarrow> Instance_Execute P I args w)"

definition ExecuteIfBound ::
  "('a, 'r) program \<Rightarrow> TDelegate \<Rightarrow> 'a \<Rightarrow> 'a world \<Rightarrow> error + 'a world \<times> 'r" where
  "ExecuteIfBound P d args w =
     (if \<not> IsBound (Alive w) d then Inr (w, RetDefault P)
      else case Instance d of
             None \<Rightarrow> Inl NullDereference
           | Some I \<Rightarrow> Instance_Execute P I args w)"

section \<open>Broadcast\<close>

text \<open>
  The range-for over the snapshot: the result of each \<^verbatim>\<open>ExecuteIfBound\<close> is dropped,
  an error ends the loop. \<^verbatim>\<open>Args\<close> is a by-value parameter of \<^verbatim>\<open>Broadcast\<close>, the loop
  body passes \<^verbatim>\<open>std::forward<ArgsType>(Args)...\<close>, and \<^verbatim>\<open>ExecuteIfBound\<close> takes its
  parameters by value: every iteration, whether its entry is bound or not, constructs
  the parameters of \<^verbatim>\<open>ExecuteIfBound\<close> from \<^verbatim>\<open>Args\<close> and leaves \<^verbatim>\<open>Args\<close> as
  \<open>MovedFrom\<close> says, for the next iteration. Inside one iteration the arguments are
  forwarded once at each level (\<^verbatim>\<open>ExecuteIfBound\<close>, \<^verbatim>\<open>Execute\<close>, the bound function), so
  the bound function receives what \<^verbatim>\<open>ExecuteIfBound\<close> received.
\<close>

fun BroadcastLoop ::
  "('a, 'r) program \<Rightarrow> 'a \<Rightarrow> FEntry list \<Rightarrow> 'a world \<Rightarrow> error + 'a world" where
  "BroadcastLoop P args [] w = Inr w"
| "BroadcastLoop P args (Entry # Snapshot) w =
     (case ExecuteIfBound P (Delegate Entry) args w of
        Inl e \<Rightarrow> Inl e
      | Inr (w1, r) \<Rightarrow> BroadcastLoop P (MovedFrom P args) Snapshot w1)"

definition Broadcast :: "('a, 'r) program \<Rightarrow> 'a \<Rightarrow> 'a world \<Rightarrow> error + 'a world" where
  "Broadcast P args w =
     (if Entries w = [] then Inr w
      else case BroadcastLoop P args (Entries w) w of
             Inl e \<Rightarrow> Inl e
           | Inr w1 \<Rightarrow>
               Inr (w1\<lparr>Entries :=
                         erase_remove_if (\<lambda>Entry. \<not> IsBound (Alive w1) (Delegate Entry))
                           (Entries w1)\<rparr>))"

section \<open>Clients\<close>

text \<open>
  A client of the delegate makes the same calls a bound function may make, and
  broadcasts. A run starts from the state of a fresh process.
\<close>

datatype 'a operation = Client action | ClientBroadcast 'a

fun exec :: "('a, 'r) program \<Rightarrow> 'a operation \<Rightarrow> 'a world \<Rightarrow> error + 'a world" where
  "exec P (Client c) w = Inr (perform c w)"
| "exec P (ClientBroadcast args) w = Broadcast P args w"

fun run :: "('a, 'r) program \<Rightarrow> 'a operation list \<Rightarrow> 'a world \<Rightarrow> error + 'a world" where
  "run P [] w = Inr w"
| "run P (x # xs) w = (case exec P x w of Inl e \<Rightarrow> Inl e | Inr w1 \<Rightarrow> run P xs w1)"

section \<open>Observing a broadcast\<close>

text \<open>
  \<open>during w w'\<close> is what \<open>Invoked\<close> gained between the states \<open>w\<close> and \<open>w'\<close>: the
  calls of bound functions made in between, oldest first. \<open>bound_instance E\<close> is
  the instance that the entry \<open>E\<close> holds (for an entry that holds one), and
  \<open>call_of args E\<close> is the record that calling its bound function with \<open>args\<close> leaves
  in \<open>Invoked\<close>.
\<close>

definition during :: "'a world \<Rightarrow> 'a world \<Rightarrow> (DelegateInstance \<times> 'a) list" where
  "during w w' = drop (length (Invoked w)) (Invoked w')"

definition bound_instance :: "FEntry \<Rightarrow> DelegateInstance" where
  "bound_instance E = the (Instance (Delegate E))"

definition call_of :: "'a \<Rightarrow> FEntry \<Rightarrow> DelegateInstance \<times> 'a" where
  "call_of args E = (bound_instance E, args)"

text \<open>
  Auxiliary functions for the proofs: the state after one \<^verbatim>\<open>ExecuteIfBound\<close> of the
  loop, the state after the loop, the entries of the snapshot whose bound function
  the loop calls, and the compaction that ends a broadcast.
\<close>

definition visit :: "('a, 'r) program \<Rightarrow> 'a \<Rightarrow> 'a world \<Rightarrow> TDelegate \<Rightarrow> 'a world" where
  "visit P args w d =
     (case Instance d of
        None \<Rightarrow> w
      | Some I \<Rightarrow> if IsSafeToExecute (Alive w) I then fst (call P I args w) else w)"

fun sweep :: "('a, 'r) program \<Rightarrow> 'a \<Rightarrow> FEntry list \<Rightarrow> 'a world \<Rightarrow> 'a world" where
  "sweep P args [] w = w"
| "sweep P args (E # Es) w = sweep P (MovedFrom P args) Es (visit P args w (Delegate E))"

fun called :: "('a, 'r) program \<Rightarrow> 'a \<Rightarrow> FEntry list \<Rightarrow> 'a world \<Rightarrow> FEntry list" where
  "called P args [] w = []"
| "called P args (E # Es) w =
     (if IsBound (Alive w) (Delegate E)
      then E # called P (MovedFrom P args) Es (visit P args w (Delegate E))
      else called P (MovedFrom P args) Es (visit P args w (Delegate E)))"

definition compact :: "'a world \<Rightarrow> 'a world" where
  "compact w =
     w\<lparr>Entries := erase_remove_if (\<lambda>Entry. \<not> IsBound (Alive w) (Delegate Entry)) (Entries w)\<rparr>"

text \<open>No entry of the delegate is registered under the owner \<open>ow\<close>.\<close>

definition untagged :: "nat \<Rightarrow> 'a world \<Rightarrow> bool" where
  "untagged ow w = (\<forall>X\<in>set (Entries w). Owner X \<noteq> ow)"

text \<open>
  The invariant of the counter and the stored handles: the counter is the number of
  handles issued so far plus one, modulo \<open>2 ^ 64\<close>; and as long as fewer than
  \<open>2 ^ 64\<close> handles have been issued, the handles of the entries are valid, were
  issued already and are pairwise distinct.
\<close>

definition handles_ok :: "'a world \<Rightarrow> bool" where
  "handles_ok w =
     (GDelegateNextID w = of_nat (Suc (Issued w)) \<and>
      (Issued w < 2 ^ 64 \<longrightarrow>
         (\<forall>E\<in>set (Entries w). Handle E \<noteq> 0 \<and> unat (Handle E) \<le> Issued w) \<and>
         distinct (map Handle (Entries w))))"

section \<open>Example states\<close>

text \<open>
  A delegate with the signature of the demonstration program,
  \<^verbatim>\<open>void(int, int, int)\<close>, and four subscribers: two member functions of one logger
  object (address 7), one of a display object (address 8), both bound raw, and one of a
  session object (address 9) bound weak. \<open>Observers\<close> is client code whose bound
  functions call nothing; with \<open>Unsubscriber\<close>, the first member function of the
  logger removes everything its object has registered; with \<open>Terminator\<close>, it
  releases the last owner of the session object. The arguments are \<^verbatim>\<open>int\<close>s, which
  forwarding leaves as they are.
\<close>

type_synonym health = "int \<times> int \<times> int"

definition Observers :: "(health, unit) program" where
  "Observers = \<lparr>Code = (\<lambda>c args. ([], ())), RetDefault = (), MovedFrom = (\<lambda>args. args)\<rparr>"

definition Unsubscriber :: "(health, unit) program" where
  "Unsubscriber =
     \<lparr>Code = (\<lambda>c args. if c = MemberFunction 7 1 then ([CallRemoveAll 7], ()) else ([], ())),
      RetDefault = (), MovedFrom = (\<lambda>args. args)\<rparr>"

definition Terminator :: "(health, unit) program" where
  "Terminator =
     \<lparr>Code = (\<lambda>c args. if c = MemberFunction 7 1 then ([DestroyObject 9], ()) else ([], ())),
      RetDefault = (), MovedFrom = (\<lambda>args. args)\<rparr>"

definition Logger1 :: FEntry where
  "Logger1 = \<lparr>Handle = 1, Delegate = \<lparr>Instance = Some (TRawDelegateInstance 7 1 1)\<rparr>, Owner = 7\<rparr>"

definition Logger2 :: FEntry where
  "Logger2 = \<lparr>Handle = 2, Delegate = \<lparr>Instance = Some (TRawDelegateInstance 7 2 2)\<rparr>, Owner = 7\<rparr>"

definition Hud :: FEntry where
  "Hud = \<lparr>Handle = 3, Delegate = \<lparr>Instance = Some (TRawDelegateInstance 8 1 3)\<rparr>, Owner = 8\<rparr>"

definition Session :: FEntry where
  "Session = \<lparr>Handle = 4, Delegate = \<lparr>Instance = Some (TWeakDelegateInstance 9 1 4)\<rparr>, Owner = 0\<rparr>"

definition subscribed :: "health world" where
  "subscribed =
     \<lparr>GDelegateNextID = 5, Issued = 4, Alive = {9}, Entries = [Logger1, Logger2, Hud, Session],
      Invoked = []\<rparr>"

text \<open>
  The same subscribers under a signature with a result, \<^verbatim>\<open>int(int, int, int)\<close>:
  every bound function returns the health before the change.
\<close>

definition Damage :: "(health, int) program" where
  "Damage =
     \<lparr>Code = (\<lambda>c (maxhealth, health, delta). ([], health - delta)), RetDefault = 0,
      MovedFrom = (\<lambda>args. args)\<rparr>"

text \<open>
  The states the examples reach: after a broadcast under \<open>Unsubscriber\<close>, after the
  session object is destroyed, and after a broadcast under \<open>Observers\<close> in that
  state.
\<close>

definition unsubscribed :: "health world" where
  "unsubscribed =
     subscribed\<lparr>Entries := [Hud, Session],
       Invoked := map (call_of (100, 50, -50)) [Logger1, Logger2, Hud, Session]\<rparr>"

definition session_over :: "health world" where
  "session_over = perform (DestroyObject 9) subscribed"

definition notified :: "health world" where
  "notified =
     session_over\<lparr>Entries := [Logger1, Logger2, Hud],
       Invoked := map (call_of (100, 50, -50)) [Logger1, Logger2, Hud]\<rparr>"

text \<open>The state after a broadcast under \<open>Terminator\<close>.\<close>

definition terminated :: "health world" where
  "terminated =
     subscribed\<lparr>Alive := {}, Entries := [Logger1, Logger2, Hud],
       Invoked := map (call_of (100, 50, -50)) [Logger1, Logger2, Hud]\<rparr>"

text \<open>
  A delegate of signature \<^verbatim>\<open>void(std::string)\<close> with three free functions that call
  nothing; a string that was moved from is empty.
\<close>

definition Greeter :: "(string, unit) program" where
  "Greeter = \<lparr>Code = (\<lambda>c args. ([], ())), RetDefault = (), MovedFrom = (\<lambda>args. [])\<rparr>"

definition greeters :: "string world" where
  "greeters =
     \<lparr>GDelegateNextID = 4, Issued = 3, Alive = {},
      Entries =
        [\<lparr>Handle = 1, Delegate = \<lparr>Instance = Some (TStaticDelegateInstance 1 1)\<rparr>,
           Owner = nullptr\<rparr>,
         \<lparr>Handle = 2, Delegate = \<lparr>Instance = Some (TStaticDelegateInstance 2 2)\<rparr>,
           Owner = nullptr\<rparr>,
         \<lparr>Handle = 3, Delegate = \<lparr>Instance = Some (TStaticDelegateInstance 3 3)\<rparr>,
           Owner = nullptr\<rparr>],
      Invoked = []\<rparr>"

text \<open>
  Two states that lie \<open>2 ^ 64\<close> handles away from the start of the process: the
  counter has wrapped to 0, and a delegate holds two entries with the same handle.
\<close>

definition wrapped :: "health world" where
  "wrapped =
     \<lparr>GDelegateNextID = 0, Issued = 2 ^ 64 - 1, Alive = {}, Entries = [], Invoked = []\<rparr>"

definition collided :: "health world" where
  "collided =
     \<lparr>GDelegateNextID = 2, Issued = 2 ^ 64 + 1, Alive = {},
      Entries = [\<lparr>Handle = 1, Delegate = \<lparr>Instance = Some (TStaticDelegateInstance 5 1)\<rparr>,
                   Owner = nullptr\<rparr>,
                 \<lparr>Handle = 1, Delegate = \<lparr>Instance = Some (TStaticDelegateInstance 6 0)\<rparr>,
                   Owner = nullptr\<rparr>],
      Invoked = []\<rparr>"

section \<open>Basic facts\<close>

lemma erase_remove_if_filter: "erase_remove_if p xs = filter (\<lambda>x. \<not> p x) xs"
  by (induction xs) auto

lemmas Add_defs =
  AddStatic_def AddRaw_def AddWeak_def AddLambda_def BindStatic_def
  TDelegate_AddRaw_def TDelegate_AddWeak_def TDelegate_AddLambda_def
  AddInternal_def GenerateNewID_def

lemma Alive_perform: "Alive (perform c w) \<subseteq> Alive w"
  by (cases c) (auto simp: Add_defs Remove_def RemoveAll_def Clear_def Let_def)

lemma Invoked_perform [simp]: "Invoked (perform c w) = Invoked w"
  by (cases c) (auto simp: Add_defs Remove_def RemoveAll_def Clear_def Let_def)

lemma Alive_perform_all: "Alive (perform_all cs w) \<subseteq> Alive w"
proof (induction cs arbitrary: w)
  case Nil
  show ?case by simp
next
  case (Cons c cs)
  have "Alive (perform_all cs (perform c w)) \<subseteq> Alive (perform c w)" by (rule Cons.IH)
  also have "\<dots> \<subseteq> Alive w" by (rule Alive_perform)
  finally show ?case by simp
qed

lemma Invoked_perform_all [simp]: "Invoked (perform_all cs w) = Invoked w"
  by (induction cs arbitrary: w) simp_all

lemma IsSafeToExecute_mono:
  "A \<subseteq> B \<Longrightarrow> IsSafeToExecute A I \<Longrightarrow> IsSafeToExecute B I"
  by (cases I) (auto simp: expired_def)

lemma IsBound_mono: "A \<subseteq> B \<Longrightarrow> IsBound A d \<Longrightarrow> IsBound B d"
  by (auto simp: IsBound_def split: option.splits intro: IsSafeToExecute_mono)

lemma Alive_call: "Alive (fst (call P I args w)) \<subseteq> Alive w"
proof -
  obtain body r where c: "Code P (Target I) args = (body, r)" by (cases "Code P (Target I) args")
  have "Alive (perform_all body (w\<lparr>Invoked := Invoked w @ [(I, args)]\<rparr>))
      \<subseteq> Alive (w\<lparr>Invoked := Invoked w @ [(I, args)]\<rparr>)"
    by (rule Alive_perform_all)
  with c show ?thesis by (simp add: call_def)
qed

lemma Invoked_call: "Invoked (fst (call P I args w)) = Invoked w @ [(I, args)]"
  by (simp add: call_def split: prod.splits)

lemma Alive_visit: "Alive (visit P args w d) \<subseteq> Alive w"
proof (cases "Instance d")
  case None
  then show ?thesis by (simp add: visit_def)
next
  case (Some I)
  then show ?thesis using Alive_call [of P I args w] by (simp add: visit_def)
qed

lemma Invoked_visit:
  "Invoked (visit P args w (Delegate E)) =
     Invoked w @ (if IsBound (Alive w) (Delegate E) then [call_of args E] else [])"
  by (auto simp: visit_def IsBound_def call_of_def bound_instance_def Invoked_call
      split: option.splits)

lemma ExecuteIfBound_visit:
  "\<exists>r. ExecuteIfBound P d args w = Inr (visit P args w d, r)"
proof (cases "Instance d")
  case None
  then show ?thesis by (simp add: ExecuteIfBound_def visit_def IsBound_def)
next
  case (Some I)
  show ?thesis
  proof (cases "IsSafeToExecute (Alive w) I")
    case True
    with Some have "ExecuteIfBound P d args w = Inr (visit P args w d, snd (call P I args w))"
      by (simp add: ExecuteIfBound_def visit_def IsBound_def Instance_Execute_def)
    then show ?thesis by blast
  next
    case False
    with Some show ?thesis by (simp add: ExecuteIfBound_def visit_def IsBound_def)
  qed
qed

lemma BroadcastLoop_sweep: "BroadcastLoop P args Es w = Inr (sweep P args Es w)"
proof (induction Es arbitrary: args w)
  case Nil
  show ?case by simp
next
  case (Cons E Es)
  obtain r where "ExecuteIfBound P (Delegate E) args w = Inr (visit P args w (Delegate E), r)"
    using ExecuteIfBound_visit [of P "Delegate E" args w] by blast
  then show ?case by (simp add: Cons.IH)
qed

lemma Broadcast_sweep:
  "Broadcast P args w = Inr (compact (sweep P args (Entries w) w))"
  by (simp add: Broadcast_def BroadcastLoop_sweep compact_def)

lemma Alive_sweep: "Alive (sweep P args Es w) \<subseteq> Alive w"
proof (induction Es arbitrary: args w)
  case Nil
  show ?case by simp
next
  case (Cons E Es)
  have "Alive (sweep P (MovedFrom P args) Es (visit P args w (Delegate E)))
      \<subseteq> Alive (visit P args w (Delegate E))"
    by (rule Cons.IH)
  also have "\<dots> \<subseteq> Alive w" by (rule Alive_visit)
  finally show ?case by simp
qed

lemma Alive_sweep_visit: "Alive (sweep P args' Es (visit P args w d)) \<subseteq> Alive w"
  by (rule order_trans [OF Alive_sweep Alive_visit])

text \<open>
  What the loop records: one call per called entry, in order; the arguments recorded
  are those given to \<^verbatim>\<open>Broadcast\<close> when forwarding leaves them unchanged.
\<close>

lemma Invoked_sweep:
  "\<exists>cs. Invoked (sweep P args Es w) = Invoked w @ cs \<and>
      map fst cs = map bound_instance (called P args Es w) \<and>
      (MovedFrom P args = args \<longrightarrow> cs = map (call_of args) (called P args Es w))"
proof (induction Es arbitrary: args w)
  case Nil
  show ?case by simp
next
  case (Cons E Es)
  let ?w1 = "visit P args w (Delegate E)"
  let ?a1 = "MovedFrom P args"
  let ?c = "if IsBound (Alive w) (Delegate E) then [call_of args E] else []"
  from Cons.IH [of ?a1 ?w1] obtain cs where cs:
    "Invoked (sweep P ?a1 Es ?w1) = Invoked ?w1 @ cs"
    "map fst cs = map bound_instance (called P ?a1 Es ?w1)"
    "MovedFrom P ?a1 = ?a1 \<longrightarrow> cs = map (call_of ?a1) (called P ?a1 Es ?w1)"
    by blast
  have "Invoked (sweep P args (E # Es) w) = Invoked w @ (?c @ cs)"
    using cs(1) by (simp add: Invoked_visit)
  moreover have "map fst (?c @ cs) = map bound_instance (called P args (E # Es) w)"
    using cs(2) by (simp add: call_of_def)
  moreover have "?c @ cs = map (call_of args) (called P args (E # Es) w)"
    if "MovedFrom P args = args"
    using cs(3) that by simp
  ultimately show ?case by blast
qed

lemma subseq_called: "subseq (called P args Es w) Es"
  by (induction Es arbitrary: args w) auto

lemma called_bound: "E \<in> set (called P args Es w) \<Longrightarrow> IsBound (Alive w) (Delegate E)"
proof (induction Es arbitrary: args w)
  case Nil
  then show ?case by simp
next
  case (Cons X Es)
  show ?case
  proof (cases "E = X \<and> IsBound (Alive w) (Delegate X)")
    case True
    then show ?thesis by simp
  next
    case False
    with Cons.prems
    have "E \<in> set (called P (MovedFrom P args) Es (visit P args w (Delegate X)))"
      by (auto split: if_splits)
    then have "IsBound (Alive (visit P args w (Delegate X))) (Delegate E)" by (rule Cons.IH)
    then show ?thesis by (rule IsBound_mono [OF Alive_visit])
  qed
qed

lemma sweep_append:
  "sweep P args (Es @ Fs) w
     = sweep P ((MovedFrom P ^^ length Es) args) Fs (sweep P args Es w)"
  by (induction Es arbitrary: args w) (simp_all add: funpow_swap1)

lemma called_append:
  "called P args (Es @ Fs) w
     = called P args Es w
         @ called P ((MovedFrom P ^^ length Es) args) Fs (sweep P args Es w)"
  by (induction Es arbitrary: args w) (simp_all add: funpow_swap1)


lemma called_member:
  "E \<in> set Es \<Longrightarrow> IsBound (Alive (sweep P args Es w)) (Delegate E) \<Longrightarrow>
   E \<in> set (called P args Es w)"
proof (induction Es arbitrary: args w)
  case Nil
  then show ?case by simp
next
  case (Cons X Es)
  let ?w1 = "visit P args w (Delegate X)"
  let ?a1 = "MovedFrom P args"
  show ?case
  proof (cases "E = X")
    case True
    have "IsBound (Alive (sweep P ?a1 Es ?w1)) (Delegate X)" using Cons.prems True by simp
    then have "IsBound (Alive w) (Delegate X)"
      by (rule IsBound_mono [OF Alive_sweep_visit])
    with True show ?thesis by simp
  next
    case False
    with Cons.prems have "E \<in> set (called P ?a1 Es ?w1)" by (intro Cons.IH) simp_all
    then show ?thesis by simp
  qed
qed

lemma find_if_end: "(find_if p xs = length xs) = (\<forall>x\<in>set xs. \<not> p x)"
proof (induction xs)
  case Nil
  show ?case by simp
next
  case (Cons x xs)
  have "find_if p xs \<le> length xs" by (induction xs) auto
  with Cons show ?case by auto
qed

lemma find_if_split:
  "find_if p xs \<noteq> length xs \<Longrightarrow>
   \<exists>ys e zs. xs = ys @ e # zs \<and> p e \<and> (\<forall>y\<in>set ys. \<not> p y) \<and> erase (find_if p xs) xs = ys @ zs"
proof (induction xs)
  case Nil
  then show ?case by simp
next
  case (Cons x xs)
  show ?case
  proof (cases "p x")
    case True
    then have "x # xs = [] @ x # xs \<and> p x \<and> (\<forall>y\<in>set []. \<not> p y) \<and> erase (find_if p (x # xs)) (x # xs) = [] @ xs"
      by (simp add: erase_def)
    then show ?thesis by blast
  next
    case False
    with Cons.prems have "find_if p xs \<noteq> length xs" by simp
    from Cons.IH [OF this] obtain ys e zs where
      h: "xs = ys @ e # zs" "p e" "\<forall>y\<in>set ys. \<not> p y" "erase (find_if p xs) xs = ys @ zs"
      by blast
    with False have "x # xs = (x # ys) @ e # zs \<and> p e \<and> (\<forall>y\<in>set (x # ys). \<not> p y)
        \<and> erase (find_if p (x # xs)) (x # xs) = (x # ys) @ zs"
      by (simp add: erase_def)
    then show ?thesis by blast
  qed
qed

lemma filter_first_distinct:
  "distinct (map f (ys @ e # zs)) \<Longrightarrow> filter (\<lambda>x. f x \<noteq> f e) (ys @ e # zs) = ys @ zs"
proof -
  assume d: "distinct (map f (ys @ e # zs))"
  from d have n: "f e \<notin> f ` set ys" "f e \<notin> f ` set zs" by auto
  from n(1) have "\<forall>x\<in>set ys. f x \<noteq> f e" by (metis imageI)
  then have "filter (\<lambda>x. f x \<noteq> f e) ys = ys" by (rule filter_True)
  moreover from n(2) have "\<forall>x\<in>set zs. f x \<noteq> f e" by (metis imageI)
  then have "filter (\<lambda>x. f x \<noteq> f e) zs = zs" by (rule filter_True)
  ultimately show ?thesis by simp
qed

lemma Invoked_compact: "Invoked (compact w) = Invoked w"
  by (simp add: compact_def)

lemma Alive_compact: "Alive (compact w) = Alive w"
  by (simp add: compact_def)

lemma Entries_compact:
  "Entries (compact w) = filter (\<lambda>E. IsBound (Alive w) (Delegate E)) (Entries w)"
  by (simp add: compact_def erase_remove_if_filter)

lemma during_append: "Invoked w' = Invoked w @ xs \<Longrightarrow> during w w' = xs"
  by (simp add: during_def)

lemma Broadcast_during:
  assumes "w' = compact (sweep P args (Entries w) w)"
  shows "Invoked w' = Invoked w @ during w w'"
    and "map fst (during w w') = map bound_instance (called P args (Entries w) w)"
    and "MovedFrom P args = args \<Longrightarrow>
         during w w' = map (call_of args) (called P args (Entries w) w)"
proof -
  from Invoked_sweep [of P args "Entries w" w] obtain cs where cs:
    "Invoked (sweep P args (Entries w) w) = Invoked w @ cs"
    "map fst cs = map bound_instance (called P args (Entries w) w)"
    "MovedFrom P args = args \<longrightarrow> cs = map (call_of args) (called P args (Entries w) w)"
    by blast
  from cs(1) assms have "Invoked w' = Invoked w @ cs" by (simp add: Invoked_compact)
  then have d: "during w w' = cs" by (rule during_append)
  from d \<open>Invoked w' = Invoked w @ cs\<close> show "Invoked w' = Invoked w @ during w w'" by simp
  from d cs(2) show "map fst (during w w') = map bound_instance (called P args (Entries w) w)"
    by simp
  from d cs(3) show "during w w' = map (call_of args) (called P args (Entries w) w)"
    if "MovedFrom P args = args"
    using that by simp
qed

lemma IsBound_instance:
  "IsBound alive (Delegate E) \<Longrightarrow>
   \<exists>I. Instance (Delegate E) = Some I \<and> IsSafeToExecute alive I \<and> bound_instance E = I"
  by (cases "Instance (Delegate E)") (simp_all add: IsBound_def bound_instance_def)

lemma Alive_sweep_append: "Alive (sweep P args (Es @ Fs) w) \<subseteq> Alive (sweep P args Es w)"
  by (simp add: sweep_append Alive_sweep)

lemma called_two:
  assumes "IsBound (Alive (sweep P args Xs w)) (Delegate E1)"
    and "IsBound (Alive (sweep P args (Xs @ E1 # Ys @ E2 # Zs) w)) (Delegate E2)"
  shows "\<exists>pre mid post. called P args (Xs @ E1 # Ys @ E2 # Zs) w = pre @ E1 # mid @ E2 # post"
proof -
  let ?w1 = "sweep P args Xs w"
  let ?a1 = "(MovedFrom P ^^ length Xs) args"
  let ?w2 = "sweep P args (Xs @ E1 # Ys) w"
  let ?a2 = "(MovedFrom P ^^ length (Xs @ E1 # Ys)) args"
  have "Alive (sweep P args ((Xs @ E1 # Ys) @ E2 # Zs) w) \<subseteq> Alive ?w2"
    by (rule Alive_sweep_append)
  then have "Alive (sweep P args (Xs @ E1 # Ys @ E2 # Zs) w) \<subseteq> Alive ?w2" by simp
  then have b2: "IsBound (Alive ?w2) (Delegate E2)"
    using assms(2) by (rule IsBound_mono)
  have "called P args (Xs @ E1 # Ys @ E2 # Zs) w
      = called P args (Xs @ E1 # Ys) w @ called P ?a2 (E2 # Zs) ?w2"
    using called_append [of P args "Xs @ E1 # Ys" "E2 # Zs" w] by simp
  also have "called P args (Xs @ E1 # Ys) w
      = called P args Xs w
          @ E1 # called P (MovedFrom P ?a1) Ys (visit P ?a1 ?w1 (Delegate E1))"
    using assms(1) called_append [of P args Xs "E1 # Ys" w] by simp
  also have "called P ?a2 (E2 # Zs) ?w2
      = E2 # called P (MovedFrom P ?a2) Zs (visit P ?a2 ?w2 (Delegate E2))"
    using b2 by simp
  finally have "called P args (Xs @ E1 # Ys @ E2 # Zs) w
      = called P args Xs w
          @ E1 # called P (MovedFrom P ?a1) Ys (visit P ?a1 ?w1 (Delegate E1))
          @ E2 # called P (MovedFrom P ?a2) Zs (visit P ?a2 ?w2 (Delegate E2))"
    by simp
  then show ?thesis by blast
qed

lemma set_erase: "set (erase i xs) \<subseteq> set xs"
proof -
  have "set (take i xs) \<subseteq> set xs" by (rule set_take_subset)
  moreover have "set (drop (Suc i) xs) \<subseteq> set xs" by (rule set_drop_subset)
  ultimately show ?thesis by (simp add: erase_def)
qed

lemma untagged_subset: "untagged ow w \<Longrightarrow> set (Entries w') \<subseteq> set (Entries w) \<Longrightarrow> untagged ow w'"
  by (auto simp: untagged_def)

lemma Entries_Remove: "set (Entries (Remove h w)) \<subseteq> set (Entries w)"
  using set_erase [of "find_if (\<lambda>E. Handle E = h) (Entries w)" "Entries w"]
  by (simp add: Remove_def Let_def)

lemma Entries_RemoveAll: "set (Entries (RemoveAll p w)) \<subseteq> set (Entries w)"
  by (simp add: RemoveAll_def erase_remove_if_filter)

lemma untagged_perform:
  assumes "untagged ow w" and "\<forall>m. c \<noteq> CallAddRaw ow m" and "ow \<noteq> nullptr"
  shows "untagged ow (perform c w)"
proof (cases c)
  case (CallRemove h)
  then show ?thesis using assms(1) Entries_Remove [of h w] by (simp add: untagged_subset)
next
  case (CallRemoveAll p)
  then show ?thesis using assms(1) Entries_RemoveAll [of p w] by (simp add: untagged_subset)
next
  case (CallAddRaw p m)
  with assms(2) have "p \<noteq> ow" by simp
  with CallAddRaw assms(1) show ?thesis by (simp add: untagged_def Add_defs)
qed (use assms in \<open>simp_all add: untagged_def Add_defs Clear_def\<close>)

lemma untagged_RemoveAll: "ow \<noteq> nullptr \<Longrightarrow> untagged ow (perform (CallRemoveAll ow) w)"
  by (simp add: untagged_def RemoveAll_def erase_remove_if_filter)

lemma untagged_perform_all:
  "untagged ow w \<Longrightarrow> \<forall>m. CallAddRaw ow m \<notin> set cs \<Longrightarrow> ow \<noteq> nullptr \<Longrightarrow>
   untagged ow (perform_all cs w)"
proof (induction cs arbitrary: w)
  case Nil
  then show ?case by simp
next
  case (Cons c cs)
  from Cons.prems have "untagged ow (perform c w)" by (intro untagged_perform) auto
  with Cons.prems show ?case by (simp add: Cons.IH)
qed

lemma untagged_perform_all_RemoveAll:
  "CallRemoveAll ow \<in> set cs \<Longrightarrow> \<forall>m. CallAddRaw ow m \<notin> set cs \<Longrightarrow> ow \<noteq> nullptr \<Longrightarrow>
   untagged ow (perform_all cs w)"
proof (induction cs arbitrary: w)
  case Nil
  then show ?case by simp
next
  case (Cons c cs)
  show ?case
  proof (cases "c = CallRemoveAll ow")
    case True
    from Cons.prems(3) have "untagged ow (perform (CallRemoveAll ow) w)"
      by (rule untagged_RemoveAll)
    with True have "untagged ow (perform c w)" by simp
    then have "untagged ow (perform_all cs (perform c w))"
      using Cons.prems(2,3) by (intro untagged_perform_all) simp_all
    then show ?thesis by simp
  next
    case False
    with Cons.prems show ?thesis by (simp add: Cons.IH)
  qed
qed

lemma untagged_Invoked: "untagged ow (w\<lparr>Invoked := xs\<rparr>) = untagged ow w"
  by (simp add: untagged_def)

lemma untagged_visit:
  assumes "untagged ow w" and "ow \<noteq> nullptr"
    and "\<forall>J. Instance d = Some J \<longrightarrow> (\<forall>m. CallAddRaw ow m \<notin> set (fst (Code P (Target J) args)))"
  shows "untagged ow (visit P args w d)"
proof (cases "Instance d")
  case None
  with assms(1) show ?thesis by (simp add: visit_def)
next
  case (Some J)
  obtain body r where c: "Code P (Target J) args = (body, r)" by (cases "Code P (Target J) args")
  with Some assms(3) have "\<forall>m. CallAddRaw ow m \<notin> set body" by simp
  with assms(1,2) have "untagged ow (perform_all body (w\<lparr>Invoked := Invoked w @ [(J, args)]\<rparr>))"
    by (intro untagged_perform_all) (simp_all add: untagged_Invoked)
  with Some c assms(1) show ?thesis by (simp add: visit_def call_def)
qed

lemma untagged_visit_RemoveAll:
  assumes "IsBound (Alive w) d" and "Instance d = Some I" and "ow \<noteq> nullptr"
    and "CallRemoveAll ow \<in> set (fst (Code P (Target I) args))"
    and "\<forall>m. CallAddRaw ow m \<notin> set (fst (Code P (Target I) args))"
  shows "untagged ow (visit P args w d)"
proof -
  obtain body r where c: "Code P (Target I) args = (body, r)" by (cases "Code P (Target I) args")
  with assms have "untagged ow (perform_all body (w\<lparr>Invoked := Invoked w @ [(I, args)]\<rparr>))"
    by (intro untagged_perform_all_RemoveAll) simp_all
  with assms(1,2) c show ?thesis by (simp add: visit_def call_def IsBound_def)
qed

lemma funpow_shift:
  "\<forall>k. Q ((f ^^ k) x) \<Longrightarrow> Q x \<and> (\<forall>k. Q ((f ^^ k) (f x)))"
proof
  assume q: "\<forall>k. Q ((f ^^ k) x)"
  from q have "Q ((f ^^ 0) x)" by blast
  then show "Q x" by simp
  show "\<forall>k. Q ((f ^^ k) (f x))"
  proof
    fix k
    from q have "Q ((f ^^ Suc k) x)" by blast
    then show "Q ((f ^^ k) (f x))" by (simp add: funpow_swap1)
  qed
qed

lemma untagged_sweep:
  "untagged ow w \<Longrightarrow> ow \<noteq> nullptr \<Longrightarrow>
   \<forall>k. \<forall>X\<in>set Es. \<forall>J. Instance (Delegate X) = Some J \<longrightarrow>
      (\<forall>m. CallAddRaw ow m \<notin> set (fst (Code P (Target J) ((MovedFrom P ^^ k) args)))) \<Longrightarrow>
   untagged ow (sweep P args Es w)"
proof (induction Es arbitrary: args w)
  case Nil
  then show ?case by simp
next
  case (Cons X Es)
  from funpow_shift [OF Cons.prems(3)]
  have now: "\<forall>Y\<in>set (X # Es). \<forall>J. Instance (Delegate Y) = Some J \<longrightarrow>
      (\<forall>m. CallAddRaw ow m \<notin> set (fst (Code P (Target J) args)))"
    and later: "\<forall>k. \<forall>Y\<in>set (X # Es). \<forall>J. Instance (Delegate Y) = Some J \<longrightarrow>
      (\<forall>m. CallAddRaw ow m
         \<notin> set (fst (Code P (Target J) ((MovedFrom P ^^ k) (MovedFrom P args)))))"
    by blast+
  from Cons.prems(1,2) now have "untagged ow (visit P args w (Delegate X))"
    by (intro untagged_visit) simp_all
  moreover from later
  have "\<forall>k. \<forall>Y\<in>set Es. \<forall>J. Instance (Delegate Y) = Some J \<longrightarrow>
      (\<forall>m. CallAddRaw ow m
         \<notin> set (fst (Code P (Target J) ((MovedFrom P ^^ k) (MovedFrom P args)))))"
    by simp
  ultimately have "untagged ow (sweep P (MovedFrom P args) Es (visit P args w (Delegate X)))"
    using Cons.prems(2) by (intro Cons.IH) simp_all
  then show ?case by simp
qed

lemma untagged_sweep_RemoveAll:
  "E \<in> set Es \<Longrightarrow> Instance (Delegate E) = Some I \<Longrightarrow>
   \<forall>k. CallRemoveAll ow \<in> set (fst (Code P (Target I) ((MovedFrom P ^^ k) args))) \<Longrightarrow>
   ow \<noteq> nullptr \<Longrightarrow>
   IsBound (Alive (sweep P args Es w)) (Delegate E) \<Longrightarrow>
   \<forall>k. \<forall>X\<in>set Es. \<forall>J. Instance (Delegate X) = Some J \<longrightarrow>
      (\<forall>m. CallAddRaw ow m \<notin> set (fst (Code P (Target J) ((MovedFrom P ^^ k) args)))) \<Longrightarrow>
   untagged ow (sweep P args Es w)"
proof (induction Es arbitrary: args w)
  case Nil
  then show ?case by simp
next
  case (Cons X Es)
  let ?w1 = "visit P args w (Delegate X)"
  let ?a1 = "MovedFrom P args"
  from funpow_shift [OF Cons.prems(6)]
  have now: "\<forall>Y\<in>set (X # Es). \<forall>J. Instance (Delegate Y) = Some J \<longrightarrow>
      (\<forall>m. CallAddRaw ow m \<notin> set (fst (Code P (Target J) args)))"
    and later': "\<forall>k. \<forall>Y\<in>set (X # Es). \<forall>J. Instance (Delegate Y) = Some J \<longrightarrow>
      (\<forall>m. CallAddRaw ow m \<notin> set (fst (Code P (Target J) ((MovedFrom P ^^ k) ?a1))))"
    by blast+
  from later' have later: "\<forall>k. \<forall>Y\<in>set Es. \<forall>J. Instance (Delegate Y) = Some J \<longrightarrow>
      (\<forall>m. CallAddRaw ow m \<notin> set (fst (Code P (Target J) ((MovedFrom P ^^ k) ?a1))))"
    by simp
  from funpow_shift [OF Cons.prems(3)]
  have rnow: "CallRemoveAll ow \<in> set (fst (Code P (Target I) args))"
    and rlater: "\<forall>k. CallRemoveAll ow \<in> set (fst (Code P (Target I) ((MovedFrom P ^^ k) ?a1)))"
    by blast+
  show ?case
  proof (cases "E = X")
    case True
    from Cons.prems(5) have "IsBound (Alive w) (Delegate E)"
      by (simp add: IsBound_mono [OF Alive_sweep_visit])
    moreover from Cons.prems(2) now True
    have "\<forall>m. CallAddRaw ow m \<notin> set (fst (Code P (Target I) args))" by simp
    ultimately have "untagged ow (visit P args w (Delegate E))"
      using Cons.prems(2,4) rnow by (intro untagged_visit_RemoveAll) simp_all
    with True have "untagged ow ?w1" by simp
    then have "untagged ow (sweep P ?a1 Es ?w1)"
      using Cons.prems(4) later by (rule untagged_sweep)
    then show ?thesis by simp
  next
    case False
    with Cons.prems(1) have "E \<in> set Es" by simp
    moreover from Cons.prems(5) have "IsBound (Alive (sweep P ?a1 Es ?w1)) (Delegate E)" by simp
    ultimately have "untagged ow (sweep P ?a1 Es ?w1)"
      using Cons.prems(2,4) rlater later by (intro Cons.IH) simp_all
    then show ?thesis by simp
  qed
qed

subsection \<open>The handle invariant\<close>

lemma unat_of_nat64: "n < 2 ^ 64 \<Longrightarrow> unat (of_nat n :: 64 word) = n"
  by (simp add: unat_of_nat)

lemma of_nat64_Suc_neq_0: "Suc n < 2 ^ 64 \<Longrightarrow> (of_nat (Suc n) :: 64 word) \<noteq> 0"
  by (rule of_nat_neq_0) simp_all

lemma handles_ok_initial: "handles_ok (initial alive)"
  by (simp add: handles_ok_def initial_def)

lemma handles_ok_GenerateNewID: "handles_ok w \<Longrightarrow> handles_ok (snd (GenerateNewID w))"
  by (auto simp: handles_ok_def GenerateNewID_def)

lemma handles_ok_subset:
  assumes "handles_ok w"
    and "\<exists>p. Entries w' = filter p (Entries w)"
    and "GDelegateNextID w' = GDelegateNextID w" and "Issued w' = Issued w"
  shows "handles_ok w'"
proof -
  from assms(2) obtain p where p: "Entries w' = filter p (Entries w)" by blast
  have "distinct (map Handle (filter p (Entries w)))" if "distinct (map Handle (Entries w))"
    using that by (rule distinct_map_filter)
  with assms(1,3,4) p show ?thesis by (auto simp: handles_ok_def)
qed

lemma erase_filter:
  "distinct (map f xs) \<Longrightarrow> i < length xs \<Longrightarrow> erase i xs = filter (\<lambda>x. f x \<noteq> f (xs ! i)) xs"
proof -
  assume d: "distinct (map f xs)" and i: "i < length xs"
  from i have xs: "xs = take i xs @ xs ! i # drop (Suc i) xs" by (rule id_take_nth_drop)
  with d have "distinct (map f (take i xs @ xs ! i # drop (Suc i) xs))" by simp
  from filter_first_distinct [OF this] xs show ?thesis by (simp add: erase_def)
qed

lemma find_if_le: "find_if p xs \<le> length xs"
  by (induction xs) simp_all

lemma handles_ok_Remove: "handles_ok w \<Longrightarrow> handles_ok (Remove h w)"
proof (cases "find_if (\<lambda>E. Handle E = h) (Entries w) = length (Entries w)")
  case True
  assume "handles_ok w"
  with True show ?thesis by (simp add: Remove_def)
next
  case False
  assume ok: "handles_ok w"
  let ?i = "find_if (\<lambda>E. Handle E = h) (Entries w)"
  from False find_if_le [of "\<lambda>E. Handle E = h" "Entries w"] have i: "?i < length (Entries w)"
    by simp
  show ?thesis
  proof (cases "Issued w < 2 ^ 64")
    case True
    with ok have "distinct (map Handle (Entries w))" by (simp add: handles_ok_def)
    from erase_filter [OF this i]
    have "\<exists>p. Entries (Remove h w) = filter p (Entries w)"
      using False by (auto simp: Remove_def)
    with ok show ?thesis by (rule handles_ok_subset) (simp_all add: Remove_def Let_def)
  next
    case False
    with ok show ?thesis by (simp add: handles_ok_def Remove_def Let_def)
  qed
qed

lemma handles_ok_RemoveAll: "handles_ok w \<Longrightarrow> handles_ok (RemoveAll p w)"
proof -
  assume ok: "handles_ok w"
  have "\<exists>q. Entries (RemoveAll p w) = filter q (Entries w)"
  proof (cases "p = nullptr")
    case True
    then have "Entries (RemoveAll p w) = filter (\<lambda>E. True) (Entries w)"
      by (simp add: RemoveAll_def)
    then show ?thesis by blast
  next
    case False
    then have "Entries (RemoveAll p w) = filter (\<lambda>E. Owner E \<noteq> p) (Entries w)"
      by (simp add: RemoveAll_def erase_remove_if_filter)
    then show ?thesis by blast
  qed
  with ok show ?thesis by (rule handles_ok_subset) (simp_all add: RemoveAll_def)
qed

lemma handles_ok_Clear: "handles_ok w \<Longrightarrow> handles_ok (Clear w)"
  by (simp add: handles_ok_def Clear_def)

lemma handles_ok_compact: "handles_ok w \<Longrightarrow> handles_ok (compact w)"
proof -
  assume ok: "handles_ok w"
  have "\<exists>q. Entries (compact w) = filter q (Entries w)"
    using Entries_compact [of w] by blast
  with ok show ?thesis by (rule handles_ok_subset) (simp_all add: compact_def)
qed

lemma handles_ok_AddInternal:
  assumes "handles_ok w" and "GetHandle D = GDelegateNextID w"
  shows "handles_ok (snd (AddInternal D ow (snd (GenerateNewID w))))"
proof (cases "IsValid (GetHandle D)")
  case True
  let ?h = "of_nat (Suc (Issued w)) :: 64 word"
  from assms have h: "GetHandle D = ?h" by (simp add: handles_ok_def)
  from True h have r: "snd (AddInternal D ow (snd (GenerateNewID w)))
      = w\<lparr>GDelegateNextID := ?h + 1, Issued := Suc (Issued w),
           Entries := Entries w @ [\<lparr>Handle = ?h, Delegate = D, Owner = ow\<rparr>]\<rparr>"
    using assms(1) by (simp add: AddInternal_def GenerateNewID_def handles_ok_def)
  have "(\<forall>E\<in>set (Entries w @ [\<lparr>Handle = ?h, Delegate = D, Owner = ow\<rparr>]).
           Handle E \<noteq> 0 \<and> unat (Handle E) \<le> Suc (Issued w)) \<and>
        distinct (map Handle (Entries w @ [\<lparr>Handle = ?h, Delegate = D, Owner = ow\<rparr>]))"
    if lt: "Suc (Issued w) < 2 ^ 64"
  proof -
    from lt have u: "unat ?h = Suc (Issued w)" by (rule unat_of_nat64)
    from lt have nz: "?h \<noteq> 0" by (rule of_nat64_Suc_neq_0)
    from lt assms(1) have old: "\<forall>E\<in>set (Entries w). Handle E \<noteq> 0 \<and> unat (Handle E) \<le> Issued w"
      and d: "distinct (map Handle (Entries w))"
      by (simp_all add: handles_ok_def)
    from old u have "?h \<notin> Handle ` set (Entries w)" by force
    with old d u nz show ?thesis by auto
  qed
  then show ?thesis by (simp add: r handles_ok_def)
next
  case False
  let ?h = "of_nat (Suc (Issued w)) :: 64 word"
  from assms have h: "GetHandle D = ?h" by (simp add: handles_ok_def)
  with False have z: "?h = 0" by (simp add: IsValid_def)
  have big: "\<not> Suc (Issued w) < 2 ^ 64"
    using z of_nat64_Suc_neq_0 [of "Issued w"] by blast
  from False h z have r: "snd (AddInternal D ow (snd (GenerateNewID w)))
      = w\<lparr>GDelegateNextID := ?h + 1 + 1, Issued := Suc (Suc (Issued w)),
           Entries := Entries w @ [\<lparr>Handle = ?h + 1, Delegate = D, Owner = ow\<rparr>]\<rparr>"
    using assms(1) by (simp add: AddInternal_def GenerateNewID_def handles_ok_def)
  from big show ?thesis by (simp add: r handles_ok_def)
qed

lemma handles_ok_perform: "handles_ok w \<Longrightarrow> handles_ok (perform c w)"
proof (cases c)
  case (CallAddStatic Fn)
  assume ok: "handles_ok w"
  let ?D = "\<lparr>Instance = Some (TStaticDelegateInstance Fn (GDelegateNextID w))\<rparr>"
  have "handles_ok (snd (AddInternal ?D nullptr (snd (GenerateNewID w))))"
    using ok by (rule handles_ok_AddInternal) (simp add: GetHandle_def)
  with CallAddStatic show ?thesis by (simp add: AddStatic_def BindStatic_def GenerateNewID_def)
next
  case (CallAddRaw p m)
  assume ok: "handles_ok w"
  let ?D = "\<lparr>Instance = Some (TRawDelegateInstance p m (GDelegateNextID w))\<rparr>"
  have "handles_ok (snd (AddInternal ?D p (snd (GenerateNewID w))))"
    using ok by (rule handles_ok_AddInternal) (simp add: GetHandle_def)
  with CallAddRaw show ?thesis by (simp add: AddRaw_def TDelegate_AddRaw_def GenerateNewID_def)
next
  case (CallAddWeak p m)
  assume ok: "handles_ok w"
  let ?D = "\<lparr>Instance = Some (TWeakDelegateInstance p m (GDelegateNextID w))\<rparr>"
  have "handles_ok (snd (AddInternal ?D nullptr (snd (GenerateNewID w))))"
    using ok by (rule handles_ok_AddInternal) (simp add: GetHandle_def)
  with CallAddWeak show ?thesis by (simp add: AddWeak_def TDelegate_AddWeak_def GenerateNewID_def)
next
  case (CallAddLambda f)
  assume ok: "handles_ok w"
  let ?D = "\<lparr>Instance = Some (TLambdaDelegateInstance f (GDelegateNextID w))\<rparr>"
  have "handles_ok (snd (AddInternal ?D nullptr (snd (GenerateNewID w))))"
    using ok by (rule handles_ok_AddInternal) (simp add: GetHandle_def)
  with CallAddLambda show ?thesis
    by (simp add: AddLambda_def TDelegate_AddLambda_def GenerateNewID_def)
next
  case (CallRemove h)
  assume "handles_ok w"
  with CallRemove show ?thesis by (simp add: handles_ok_Remove)
next
  case (CallRemoveAll p)
  assume "handles_ok w"
  with CallRemoveAll show ?thesis by (simp add: handles_ok_RemoveAll)
next
  case CallClear
  assume "handles_ok w"
  with CallClear show ?thesis by (simp add: handles_ok_Clear)
next
  case BindElsewhere
  assume "handles_ok w"
  with BindElsewhere show ?thesis by (simp add: handles_ok_GenerateNewID)
next
  case (DestroyObject p)
  assume "handles_ok w"
  with DestroyObject show ?thesis by (simp add: handles_ok_def)
qed

lemma handles_ok_perform_all: "handles_ok w \<Longrightarrow> handles_ok (perform_all cs w)"
  by (induction cs arbitrary: w) (simp_all add: handles_ok_perform)

lemma handles_ok_visit: "handles_ok w \<Longrightarrow> handles_ok (visit P args w d)"
proof -
  assume ok: "handles_ok w"
  have "handles_ok (fst (call P I args w))" for I
  proof -
    obtain body r where c: "Code P (Target I) args = (body, r)"
      by (cases "Code P (Target I) args")
    from ok have "handles_ok (w\<lparr>Invoked := Invoked w @ [(I, args)]\<rparr>)"
      by (simp add: handles_ok_def)
    then have "handles_ok (perform_all body (w\<lparr>Invoked := Invoked w @ [(I, args)]\<rparr>))"
      by (rule handles_ok_perform_all)
    with c show ?thesis by (simp add: call_def)
  qed
  with ok show ?thesis by (simp add: visit_def split: option.splits)
qed

lemma handles_ok_sweep: "handles_ok w \<Longrightarrow> handles_ok (sweep P args Es w)"
  by (induction Es arbitrary: args w) (simp_all add: handles_ok_visit)

lemma handles_ok_exec: "handles_ok w \<Longrightarrow> \<exists>w'. exec P x w = Inr w' \<and> handles_ok w'"
  by (cases x)
     (simp_all add: handles_ok_perform Broadcast_sweep handles_ok_compact handles_ok_sweep)

lemma handles_ok_run: "handles_ok w \<Longrightarrow> \<exists>w'. run P xs w = Inr w' \<and> handles_ok w'"
proof (induction xs arbitrary: w)
  case Nil
  then show ?case by simp
next
  case (Cons x xs)
  from handles_ok_exec [OF Cons.prems, of P x] obtain w1 where
    w1: "exec P x w = Inr w1" "handles_ok w1" by blast
  from Cons.IH [OF w1(2)] obtain w' where "run P xs w1 = Inr w'" "handles_ok w'" by blast
  with w1(1) show ?case by simp
qed

subsection \<open>The example states\<close>

lemmas example_defs =
  subscribed_def Logger1_def Logger2_def Hud_def Session_def Unsubscriber_def Observers_def
  Terminator_def

lemmas Broadcast_defs =
  Broadcast_def ExecuteIfBound_def Instance_Execute_def IsBound_def call_def expired_def
  RemoveAll_def Remove_def Clear_def

lemma Broadcast_subscribed:
  "Broadcast Unsubscriber (100, 50, -50) subscribed = Inr unsubscribed"
  by (simp add: unsubscribed_def call_of_def bound_instance_def example_defs Broadcast_defs)

lemma Broadcast_session_over:
  "Broadcast Observers (100, 50, -50) session_over = Inr notified"
  by (simp add: notified_def session_over_def call_of_def bound_instance_def example_defs Broadcast_defs)


text \<open>
  Forwarding inside the loop: the first free function receives the string, the
  second and the third receive what moving left behind.
\<close>

lemma Broadcast_greeters:
  "Broadcast Greeter ''hello'' greeters =
     Inr (greeters\<lparr>Invoked := [(TStaticDelegateInstance 1 1, ''hello''),
                              (TStaticDelegateInstance 2 2, []),
                              (TStaticDelegateInstance 3 3, [])]\<rparr>)"
  by (simp add: greeters_def Greeter_def Broadcast_defs)

lemma during_unsubscribed:
  "during subscribed unsubscribed = map (call_of (100, 50, -50)) [Logger1, Logger2, Hud, Session]"
  by (simp add: during_def unsubscribed_def subscribed_def)

lemma bound_subscribed:
  "IsBound {9} (Delegate Logger1)" "IsBound {9} (Delegate Logger2)"
  "IsBound {9} (Delegate Hud)" "IsBound {9} (Delegate Session)"
  by (simp_all add: IsBound_def expired_def example_defs)

lemma Alive_examples:
  "Alive subscribed = {9}" "Alive unsubscribed = {9}" "Alive session_over = {}"
  "Alive notified = {}" "Alive terminated = {}"
  by (simp_all add: subscribed_def unsubscribed_def session_over_def notified_def
      terminated_def)

lemma Entries_examples:
  "Entries subscribed = [Logger1, Logger2, Hud, Session]"
  "Entries unsubscribed = [Hud, Session]"
  "Entries session_over = [Logger1, Logger2, Hud, Session]"
  "Entries notified = [Logger1, Logger2, Hud]"
  by (simp_all add: subscribed_def unsubscribed_def session_over_def notified_def)

lemma run_Client: "run P (map Client cs) w = Inr (perform_all cs w)"
  by (induction cs arbitrary: w) simp_all

lemma run_append:
  "run P xs w = Inr w1 \<Longrightarrow> run P (xs @ ys) w = run P ys w1"
  by (induction xs arbitrary: w) (auto split: sum.splits)

lemma perform_all_BindElsewhere:
  "perform_all (replicate n BindElsewhere) w =
     w\<lparr>GDelegateNextID := GDelegateNextID w + of_nat n, Issued := Issued w + n\<rparr>"
  by (induction n arbitrary: w) (simp_all add: GenerateNewID_def)

lemma run_BindElsewhere:
  "run P (replicate n (Client BindElsewhere)) w =
     Inr (w\<lparr>GDelegateNextID := GDelegateNextID w + of_nat n, Issued := Issued w + n\<rparr>)"
  using run_Client [of P "replicate n BindElsewhere" w]
  by (simp add: perform_all_BindElsewhere)

lemma run_wrapped:
  "run Observers (replicate (2 ^ 64 - 1) (Client BindElsewhere)) (initial {}) = Inr wrapped"
  by (simp add: run_BindElsewhere initial_def wrapped_def)

lemma run_collided:
  "run Observers
     (Client (CallAddStatic 5) # replicate (2 ^ 64 - 2) (Client BindElsewhere)
        @ [Client (CallAddStatic 6)])
     (initial {}) = Inr collided"
proof -
  define w1 :: "health world" where "w1 =
     \<lparr>GDelegateNextID = 2, Issued = 1, Alive = {},
      Entries = [\<lparr>Handle = 1, Delegate = \<lparr>Instance = Some (TStaticDelegateInstance 5 1)\<rparr>,
                   Owner = nullptr\<rparr>], Invoked = []\<rparr>"
  define w2 :: "health world" where "w2 = w1\<lparr>GDelegateNextID := 0, Issued := 2 ^ 64 - 1\<rparr>"
  have a: "run Observers [Client (CallAddStatic 5)] (initial {}) = Inr w1"
    by (simp add: w1_def initial_def Add_defs GetHandle_def IsValid_def)
  have b: "run Observers (replicate (2 ^ 64 - 2) (Client BindElsewhere)) w1 = Inr w2"
    by (simp add: run_BindElsewhere w1_def w2_def)
  have c: "run Observers [Client (CallAddStatic 6)] w2 = Inr collided"
    by (simp add: w1_def w2_def collided_def Add_defs GetHandle_def IsValid_def DefaultHandle_def)
  have "run Observers
      ([Client (CallAddStatic 5)]
         @ (replicate (2 ^ 64 - 2) (Client BindElsewhere) @ [Client (CallAddStatic 6)]))
      (initial {})
      = run Observers (replicate (2 ^ 64 - 2) (Client BindElsewhere) @ [Client (CallAddStatic 6)]) w1"
    by (rule run_append [OF a])
  also have "\<dots> = run Observers [Client (CallAddStatic 6)] w2"
    by (rule run_append [OF b])
  also have "\<dots> = Inr collided" by (rule c)
  finally show ?thesis by (simp only: append_Cons append_Nil)
qed

lemma run_unsubscribed:
  "run Unsubscriber
     [Client (CallAddRaw 7 1), Client (CallAddRaw 7 2), Client (CallAddRaw 8 1),
      Client (CallAddWeak 9 1), ClientBroadcast (100, 50, -50)] (initial {9}) = Inr unsubscribed"
proof -
  have "run Unsubscriber
     [Client (CallAddRaw 7 1), Client (CallAddRaw 7 2), Client (CallAddRaw 8 1),
      Client (CallAddWeak 9 1)] (initial {9}) = Inr subscribed"
    by (simp add: subscribed_def initial_def Add_defs Logger1_def Logger2_def Hud_def Session_def
      IsValid_def GetHandle_def)
  from run_append [OF this, of "[ClientBroadcast (100, 50, -50)]"] show ?thesis
    by (simp add: Broadcast_subscribed)
qed

lemma subscribed_run:
  "run Observers [Client (CallAddRaw 7 1), Client (CallAddRaw 7 2), Client (CallAddRaw 8 1),
     Client (CallAddWeak 9 1)] (initial {9}) = Inr subscribed"
  by (simp add: subscribed_def initial_def Add_defs Logger1_def Logger2_def Hud_def Session_def
      IsValid_def GetHandle_def)

section \<open>Broadcast to safe entries\<close>




section \<open>Reentrant removal during a broadcast\<close>

text \<open>
  C2, as amended. For every multicast delegate, if a bound function called during
  \<^verbatim>\<open>Broadcast\<close> calls \<^verbatim>\<open>RemoveAll\<close> with the owner of its own entry (whatever state
  the forwarding of earlier iterations has left its arguments in), the pass still runs
  to completion over the snapshot taken before the loop: the calls of the pass are
  calls of snapshot entries, in snapshot order and at most one per position of the
  snapshot, and every snapshot entry that is still safe when the broadcast returns
  has been called, the later entries registered under that owner included. The
  removal shows in the live sequence: when the owner is not null, the calling entry
  stays safe and no bound function of the pass registers a new entry under that owner,
  no entry of that owner is left when the broadcast returns.
\<close>

theorem Broadcast_RemoveAll_own_tag:
  assumes "E \<in> set (Entries w)"
    and "Instance (Delegate E) = Some I"
    and "\<forall>k. CallRemoveAll (Owner E)
           \<in> set (fst (Code P (Target I) ((MovedFrom P ^^ k) args)))"
  shows "\<exists>w'. Broadcast P args w = Inr w' \<and> Invoked w' = Invoked w @ during w w' \<and>
           (\<exists>Ks. map fst (during w w') = map bound_instance Ks \<and>
              (MovedFrom P args = args \<longrightarrow> during w w' = map (call_of args) Ks) \<and>
              subseq Ks (Entries w) \<and>
              (\<forall>X\<in>set (Entries w). IsBound (Alive w') (Delegate X) \<longrightarrow> X \<in> set Ks)) \<and>
           (Owner E \<noteq> nullptr \<and> IsBound (Alive w') (Delegate E) \<and>
            (\<forall>X\<in>set (Entries w). \<forall>J. Instance (Delegate X) = Some J \<longrightarrow>
               (\<forall>k m. CallAddRaw (Owner E) m
                  \<notin> set (fst (Code P (Target J) ((MovedFrom P ^^ k) args))))) \<longrightarrow>
            (\<forall>X\<in>set (Entries w'). Owner X \<noteq> Owner E))"
proof -
  define w' where "w' = compact (sweep P args (Entries w) w)"
  let ?Ks = "called P args (Entries w) w"
  have "Broadcast P args w = Inr w'" by (simp add: w'_def Broadcast_sweep)
  moreover have "Invoked w' = Invoked w @ during w w'"
    using w'_def by (rule Broadcast_during)
  moreover have "map fst (during w w') = map bound_instance ?Ks"
    using w'_def by (rule Broadcast_during)
  moreover have "during w w' = map (call_of args) ?Ks" if "MovedFrom P args = args"
    using w'_def that by (rule Broadcast_during)
  moreover have "subseq ?Ks (Entries w)" by (rule subseq_called)
  moreover have "X \<in> set ?Ks" if "X \<in> set (Entries w)" "IsBound (Alive w') (Delegate X)" for X
  proof -
    from that(2) have "IsBound (Alive (sweep P args (Entries w) w)) (Delegate X)"
      by (simp add: w'_def Alive_compact)
    with that(1) show ?thesis by (rule called_member)
  qed
  moreover have "\<forall>X\<in>set (Entries w'). Owner X \<noteq> Owner E"
    if "Owner E \<noteq> nullptr" "IsBound (Alive w') (Delegate E)"
      "\<forall>X\<in>set (Entries w). \<forall>J. Instance (Delegate X) = Some J \<longrightarrow>
         (\<forall>k m. CallAddRaw (Owner E) m
            \<notin> set (fst (Code P (Target J) ((MovedFrom P ^^ k) args))))"
  proof -
    from that(2) have b: "IsBound (Alive (sweep P args (Entries w) w)) (Delegate E)"
      by (simp add: w'_def Alive_compact)
    from that(3) have n: "\<forall>k. \<forall>X\<in>set (Entries w). \<forall>J. Instance (Delegate X) = Some J \<longrightarrow>
         (\<forall>m. CallAddRaw (Owner E) m
            \<notin> set (fst (Code P (Target J) ((MovedFrom P ^^ k) args))))"
      by blast
    from assms(1,2,3) that(1) b n have "untagged (Owner E) (sweep P args (Entries w) w)"
      by (rule untagged_sweep_RemoveAll)
    moreover have "set (Entries w') \<subseteq> set (Entries (sweep P args (Entries w) w))"
      by (simp add: w'_def Entries_compact)
    ultimately have "untagged (Owner E) w'" by (rule untagged_subset)
    then show ?thesis by (simp add: untagged_def)
  qed
  ultimately show ?thesis by blast
qed

theorem Broadcast_RemoveAll_own_tag_witness:
  "Logger1 \<in> set (Entries subscribed) \<and>
   Instance (Delegate Logger1) = Some (TRawDelegateInstance 7 1 1) \<and>
   CallRemoveAll (Owner Logger1)
     \<in> set (fst (Code Unsubscriber (Target (TRawDelegateInstance 7 1 1)) (100, 50, -50))) \<and>
   Broadcast Unsubscriber (100, 50, -50) subscribed = Inr unsubscribed \<and>
   Owner Logger1 \<noteq> nullptr \<and> IsBound (Alive unsubscribed) (Delegate Logger1) \<and>
   list_all (\<lambda>X. Owner X \<noteq> Owner Logger1) (Entries unsubscribed)"
proof -
  have m: "Logger1 \<in> set (Entries subscribed)" by (simp add: Entries_examples)
  have i: "Instance (Delegate Logger1) = Some (TRawDelegateInstance 7 1 1)"
    by (simp add: Logger1_def)
  have c: "\<forall>k. CallRemoveAll (Owner Logger1)
      \<in> set (fst (Code Unsubscriber (Target (TRawDelegateInstance 7 1 1))
                 ((MovedFrom Unsubscriber ^^ k) (100, 50, -50))))"
    by (simp add: Logger1_def Unsubscriber_def)
  have c0: "CallRemoveAll (Owner Logger1)
      \<in> set (fst (Code Unsubscriber (Target (TRawDelegateInstance 7 1 1)) (100, 50, -50)))"
    by (simp add: Logger1_def Unsubscriber_def)
  have o: "Owner Logger1 \<noteq> nullptr" by (simp add: Logger1_def)
  have b: "IsBound (Alive unsubscribed) (Delegate Logger1)"
    by (simp add: Alive_examples bound_subscribed)
  have n: "\<forall>X\<in>set (Entries subscribed). \<forall>J. Instance (Delegate X) = Some J \<longrightarrow>
      (\<forall>k m. CallAddRaw (Owner Logger1) m
         \<notin> set (fst (Code Unsubscriber (Target J)
                   ((MovedFrom Unsubscriber ^^ k) (100, 50, -50)))))"
    by (simp add: Unsubscriber_def)
  from Broadcast_RemoveAll_own_tag [OF m i c] Broadcast_subscribed o b n
  have "\<forall>X\<in>set (Entries unsubscribed). Owner X \<noteq> Owner Logger1"
    by auto
  then have "list_all (\<lambda>X. Owner X \<noteq> Owner Logger1) (Entries unsubscribed)"
    by (simp add: list_all_iff)
  with m i c0 o b Broadcast_subscribed show ?thesis by simp
qed

text \<open>
  The claim as stated says that no entry of that owner is called later in the same
  pass. With two entries registered by the logger object, the bound function of the
  first calls \<^verbatim>\<open>RemoveAll\<close> for the logger, and the second is called all the same,
  from the snapshot.
\<close>

theorem Broadcast_RemoveAll_own_tag_counterexample:
  "Entries subscribed = [Logger1, Logger2, Hud, Session] \<and>
   Owner Logger1 = 7 \<and> Owner Logger2 = 7 \<and>
   Instance (Delegate Logger1) = Some (TRawDelegateInstance 7 1 1) \<and>
   Instance (Delegate Logger2) = Some (TRawDelegateInstance 7 2 2) \<and>
   fst (Code Unsubscriber (Target (TRawDelegateInstance 7 1 1)) (100, 50, -50)) = [CallRemoveAll 7] \<and>
   Broadcast Unsubscriber (100, 50, -50) subscribed = Inr unsubscribed \<and>
   during subscribed unsubscribed =
     [(TRawDelegateInstance 7 1 1, (100, 50, -50)), (TRawDelegateInstance 7 2 2, (100, 50, -50)),
      (TRawDelegateInstance 8 1 3, (100, 50, -50)), (TWeakDelegateInstance 9 1 4, (100, 50, -50))]"
  by (simp add: Entries_examples Broadcast_subscribed during_unsubscribed call_of_def)
     (simp add: bound_instance_def example_defs)

section \<open>Expired weak bindings\<close>

text \<open>
  C3. For every multicast delegate that holds a weak-bound entry whose target was
  destroyed before \<^verbatim>\<open>Broadcast\<close> is called: the broadcast returns, it does not call
  the bound function of the expired entry (with any arguments), it calls every
  other entry of the delegate that is safe (still safe when the broadcast returns),
  with the arguments given to \<^verbatim>\<open>Broadcast\<close> when forwarding leaves them as they are,
  and the expired entry is not in the delegate when the broadcast returns.
\<close>

theorem Broadcast_expired_weak:
  assumes "E \<in> set (Entries w)"
    and "Instance (Delegate E) = Some (TWeakDelegateInstance Weak Method h)"
    and "expired (Alive w) Weak"
  shows "\<exists>w'. Broadcast P args w = Inr w' \<and> Invoked w' = Invoked w @ during w w' \<and>
           (\<forall>a. (TWeakDelegateInstance Weak Method h, a) \<notin> set (during w w')) \<and>
           (\<forall>X\<in>set (Entries w).
              IsBound (Alive w') (Delegate X) \<longrightarrow>
                bound_instance X \<in> fst ` set (during w w') \<and>
                (MovedFrom P args = args \<longrightarrow> call_of args X \<in> set (during w w'))) \<and>
           E \<notin> set (Entries w')"
proof -
  define w' where "w' = compact (sweep P args (Entries w) w)"
  let ?I = "TWeakDelegateInstance Weak Method h"
  have d: "map fst (during w w') = map bound_instance (called P args (Entries w) w)"
    using w'_def by (rule Broadcast_during)
  have sub: "Alive w' \<subseteq> Alive w" by (simp add: w'_def Alive_compact Alive_sweep)
  have unsafe: "\<not> IsSafeToExecute (Alive w) ?I" using assms(3) by simp
  have "Broadcast P args w = Inr w'" by (simp add: w'_def Broadcast_sweep)
  moreover have "Invoked w' = Invoked w @ during w w'"
    using w'_def by (rule Broadcast_during)
  moreover have "(?I, a) \<notin> set (during w w')" for a
  proof
    assume "(?I, a) \<in> set (during w w')"
    then have "?I \<in> set (map fst (during w w'))" by force
    with d obtain X where X: "X \<in> set (called P args (Entries w) w)" "bound_instance X = ?I"
      by auto
    from X(1) have "IsBound (Alive w) (Delegate X)" by (rule called_bound)
    from IsBound_instance [OF this] X(2) have "IsSafeToExecute (Alive w) ?I" by auto
    with unsafe show False by simp
  qed
  moreover have "bound_instance X \<in> fst ` set (during w w') \<and>
      (MovedFrom P args = args \<longrightarrow> call_of args X \<in> set (during w w'))"
    if "X \<in> set (Entries w)" "IsBound (Alive w') (Delegate X)" for X
  proof (intro conjI impI)
    from that(2) have "IsBound (Alive (sweep P args (Entries w) w)) (Delegate X)"
      by (simp add: w'_def Alive_compact)
    with that(1) have c: "X \<in> set (called P args (Entries w) w)" by (rule called_member)
    then have "bound_instance X \<in> set (map fst (during w w'))" by (simp add: d)
    then show "bound_instance X \<in> fst ` set (during w w')" by simp
    assume "MovedFrom P args = args"
    from Broadcast_during(3) [OF w'_def this] c
    show "call_of args X \<in> set (during w w')" by simp
  qed
  moreover have "E \<notin> set (Entries w')"
  proof
    assume "E \<in> set (Entries w')"
    then have "IsBound (Alive w') (Delegate E)"
      by (simp add: w'_def Entries_compact Alive_compact)
    then have "IsBound (Alive w) (Delegate E)" by (rule IsBound_mono [OF sub])
    with assms(2) unsafe show False by (simp add: IsBound_def)
  qed
  ultimately show ?thesis by blast
qed

theorem Broadcast_expired_weak_witness:
  "Session \<in> set (Entries session_over) \<and>
   Instance (Delegate Session) = Some (TWeakDelegateInstance 9 1 4) \<and>
   expired (Alive session_over) 9 \<and>
   Broadcast Observers (100, 50, -50) session_over = Inr notified \<and>
   (TWeakDelegateInstance 9 1 4, (100, 50, -50)) \<notin> set (during session_over notified) \<and>
   IsBound (Alive notified) (Delegate Hud) \<and>
   MovedFrom Observers (100, 50, -50) = (100, 50, -50) \<and>
   bound_instance Hud \<in> fst ` set (during session_over notified) \<and>
   call_of (100, 50, -50) Hud \<in> set (during session_over notified) \<and>
   Session \<notin> set (Entries notified)"
proof -
  have m: "Session \<in> set (Entries session_over)" "Hud \<in> set (Entries session_over)"
    by (simp_all add: Entries_examples)
  have i: "Instance (Delegate Session) = Some (TWeakDelegateInstance 9 1 4)"
    by (simp add: Session_def)
  have x: "expired (Alive session_over) 9" by (simp add: Alive_examples expired_def)
  have h: "IsBound (Alive notified) (Delegate Hud)"
    by (simp add: IsBound_def Hud_def)
  have f: "MovedFrom Observers (100, 50, -50) = (100, 50, -50)" by (simp add: Observers_def)
  from Broadcast_expired_weak [OF m(1) i x, of Observers "(100, 50, -50)"] Broadcast_session_over
  have "(\<forall>a. (TWeakDelegateInstance 9 1 4, a) \<notin> set (during session_over notified)) \<and>
      (\<forall>X\<in>set (Entries session_over).
         IsBound (Alive notified) (Delegate X) \<longrightarrow>
           bound_instance X \<in> fst ` set (during session_over notified) \<and>
           (MovedFrom Observers (100, 50, -50) = (100, 50, -50) \<longrightarrow>
              call_of (100, 50, -50) X \<in> set (during session_over notified))) \<and>
      Session \<notin> set (Entries notified)"
    by auto
  with m(2) h f
  have "(TWeakDelegateInstance 9 1 4, (100, 50, -50)) \<notin> set (during session_over notified)"
    "bound_instance Hud \<in> fst ` set (during session_over notified)"
    "call_of (100, 50, -50) Hud \<in> set (during session_over notified)"
    "Session \<notin> set (Entries notified)"
    by blast+
  with m(1) i x h f Broadcast_session_over show ?thesis by simp
qed

section \<open>Entries removed while the snapshot is walked\<close>

text \<open>
  C9. For every multicast delegate: the snapshot holds the entries with their
  bindings, whatever happens to the live sequence. If the bound function of an entry
  \<open>E1\<close>, safe when the loop reaches it, removes a later entry \<open>E2\<close> from the live
  sequence by \<^verbatim>\<open>Remove\<close>, \<^verbatim>\<open>RemoveAll\<close> or \<^verbatim>\<open>Clear\<close>, and the target of \<open>E2\<close> is not
  destroyed during the broadcast (\<open>E2\<close> is still safe when it returns), then \<open>E2\<close> is
  still called in the same pass, after \<open>E1\<close>; both with the arguments given to
  \<^verbatim>\<open>Broadcast\<close> when forwarding leaves them as they are.
\<close>

theorem Broadcast_removed_later_entry:
  assumes "Entries w = Xs @ E1 # Ys @ E2 # Zs"
    and "Instance (Delegate E1) = Some I1"
    and "CallRemove (Handle E2)
           \<in> set (fst (Code P (Target I1) ((MovedFrom P ^^ length Xs) args))) \<or>
         CallRemoveAll (Owner E2)
           \<in> set (fst (Code P (Target I1) ((MovedFrom P ^^ length Xs) args))) \<or>
         CallClear \<in> set (fst (Code P (Target I1) ((MovedFrom P ^^ length Xs) args)))"
  shows "\<exists>w1 w'. BroadcastLoop P args Xs w = Inr w1 \<and> Broadcast P args w = Inr w' \<and>
           Invoked w' = Invoked w @ during w w' \<and>
           (IsBound (Alive w1) (Delegate E1) \<and> IsBound (Alive w') (Delegate E2) \<longrightarrow>
              (\<exists>pre mid post.
                 map fst (during w w') = pre @ I1 # mid @ bound_instance E2 # post) \<and>
              (MovedFrom P args = args \<longrightarrow>
                 (\<exists>pre mid post.
                    during w w' = pre @ call_of args E1 # mid @ call_of args E2 # post)))"
proof -
  define w' where "w' = compact (sweep P args (Entries w) w)"
  define w1 where "w1 = sweep P args Xs w"
  have i1: "bound_instance E1 = I1" using assms(2) by (simp add: bound_instance_def)
  have "BroadcastLoop P args Xs w = Inr w1" by (simp add: w1_def BroadcastLoop_sweep)
  moreover have "Broadcast P args w = Inr w'" by (simp add: w'_def Broadcast_sweep)
  moreover have "Invoked w' = Invoked w @ during w w'"
    using w'_def by (rule Broadcast_during)
  moreover have "(\<exists>pre mid post.
        map fst (during w w') = pre @ I1 # mid @ bound_instance E2 # post) \<and>
      (MovedFrom P args = args \<longrightarrow>
        (\<exists>pre mid post. during w w' = pre @ call_of args E1 # mid @ call_of args E2 # post))"
    if "IsBound (Alive w1) (Delegate E1)" "IsBound (Alive w') (Delegate E2)"
  proof -
    from that(1) have "IsBound (Alive (sweep P args Xs w)) (Delegate E1)" by (simp add: w1_def)
    moreover from that(2) assms(1)
    have "IsBound (Alive (sweep P args (Xs @ E1 # Ys @ E2 # Zs) w)) (Delegate E2)"
      by (simp add: w'_def Alive_compact)
    ultimately obtain pre mid post where
      c: "called P args (Xs @ E1 # Ys @ E2 # Zs) w = pre @ E1 # mid @ E2 # post"
      using called_two [of P args Xs w E1 Ys E2 Zs] by blast
    from Broadcast_during(2) [OF w'_def] c assms(1) i1
    have "map fst (during w w')
        = map bound_instance pre @ I1 # map bound_instance mid
            @ bound_instance E2 # map bound_instance post"
      by simp
    then have 1: "\<exists>pre mid post.
        map fst (during w w') = pre @ I1 # mid @ bound_instance E2 # post"
      by blast
    have 2: "\<exists>pre mid post. during w w' = pre @ call_of args E1 # mid @ call_of args E2 # post"
      if "MovedFrom P args = args"
    proof -
      from Broadcast_during(3) [OF w'_def that] c assms(1)
      have "during w w'
          = map (call_of args) pre @ call_of args E1 # map (call_of args) mid
              @ call_of args E2 # map (call_of args) post"
        by simp
      then show ?thesis by blast
    qed
    from 1 2 show ?thesis by blast
  qed
  ultimately show ?thesis by blast
qed

theorem Broadcast_removed_later_entry_witness:
  "Entries subscribed = [] @ Logger1 # [] @ Logger2 # [Hud, Session] \<and>
   Instance (Delegate Logger1) = Some (TRawDelegateInstance 7 1 1) \<and>
   CallRemoveAll (Owner Logger2)
     \<in> set (fst (Code Unsubscriber (Target (TRawDelegateInstance 7 1 1)) (100, 50, -50))) \<and>
   BroadcastLoop Unsubscriber (100, 50, -50) [] subscribed = Inr subscribed \<and>
   Broadcast Unsubscriber (100, 50, -50) subscribed = Inr unsubscribed \<and>
   IsBound (Alive subscribed) (Delegate Logger1) \<and>
   IsBound (Alive unsubscribed) (Delegate Logger2) \<and>
   MovedFrom Unsubscriber (100, 50, -50) = (100, 50, -50) \<and>
   Logger2 \<notin> set (Entries unsubscribed) \<and>
   (\<exists>pre mid post. map fst (during subscribed unsubscribed)
      = pre @ TRawDelegateInstance 7 1 1 # mid @ bound_instance Logger2 # post) \<and>
   (\<exists>pre mid post. during subscribed unsubscribed
      = pre @ call_of (100, 50, -50) Logger1 # mid @ call_of (100, 50, -50) Logger2 # post)"
proof -
  have e: "Entries subscribed = [] @ Logger1 # [] @ Logger2 # [Hud, Session]"
    by (simp add: Entries_examples)
  have i: "Instance (Delegate Logger1) = Some (TRawDelegateInstance 7 1 1)"
    by (simp add: Logger1_def)
  have c: "CallRemove (Handle Logger2)
        \<in> set (fst (Code Unsubscriber (Target (TRawDelegateInstance 7 1 1))
                   ((MovedFrom Unsubscriber ^^ length ([] :: FEntry list)) (100, 50, -50)))) \<or>
      CallRemoveAll (Owner Logger2)
        \<in> set (fst (Code Unsubscriber (Target (TRawDelegateInstance 7 1 1))
                   ((MovedFrom Unsubscriber ^^ length ([] :: FEntry list)) (100, 50, -50)))) \<or>
      CallClear
        \<in> set (fst (Code Unsubscriber (Target (TRawDelegateInstance 7 1 1))
                   ((MovedFrom Unsubscriber ^^ length ([] :: FEntry list)) (100, 50, -50))))"
    by (simp add: Logger2_def Unsubscriber_def)
  have c': "CallRemoveAll (Owner Logger2)
        \<in> set (fst (Code Unsubscriber (Target (TRawDelegateInstance 7 1 1)) (100, 50, -50)))"
    by (simp add: Logger2_def Unsubscriber_def)
  have l: "BroadcastLoop Unsubscriber (100, 50, -50) [] subscribed = Inr subscribed" by simp
  have b: "IsBound (Alive subscribed) (Delegate Logger1)"
    "IsBound (Alive unsubscribed) (Delegate Logger2)"
    by (simp_all add: Alive_examples bound_subscribed)
  have f: "MovedFrom Unsubscriber (100, 50, -50) = (100, 50, -50)"
    by (simp add: Unsubscriber_def)
  have g: "Logger2 \<notin> set (Entries unsubscribed)"
    by (simp add: Entries_examples example_defs)
  from Broadcast_removed_later_entry [OF e i c] Broadcast_subscribed l b f
  have "(\<exists>pre mid post. map fst (during subscribed unsubscribed)
      = pre @ TRawDelegateInstance 7 1 1 # mid @ bound_instance Logger2 # post) \<and>
    (\<exists>pre mid post. during subscribed unsubscribed
      = pre @ call_of (100, 50, -50) Logger1 # mid @ call_of (100, 50, -50) Logger2 # post)"
    by auto
  with e i c' l b f g Broadcast_subscribed show ?thesis by blast
qed

section \<open>Handle generation\<close>

text \<open>
  C4, as amended. Handle generation starts at 1, and two consecutive calls of
  \<^verbatim>\<open>GenerateNewID\<close> never return the same value. In every state that a client can reach
  from the start of the process (by Add, Remove, RemoveAll, Clear, binds on other
  delegates, destruction of objects and broadcasts, with any bound functions): as
  long as fewer than \<open>2 ^ 64 - 1\<close> handles have been generated, the next generated
  handle is valid (not 0) and its value is the number of handles generated so far plus
  one, so the handles generated up to then are increasing and pairwise distinct; and
  as long as fewer than \<open>2 ^ 64\<close> handles have been generated, the handles stored in
  the multicast delegate are valid and pairwise distinct.
\<close>

theorem handles_unique_before_wrap:
  "fst (GenerateNewID (initial alive :: 'a world)) = 1 \<and>
   fst (GenerateNewID (snd (GenerateNewID (v :: 'a world)))) \<noteq> fst (GenerateNewID v) \<and>
   (\<exists>w. run P xs (initial alive :: 'a world) = Inr w \<and>
      (Issued w < 2 ^ 64 - 1 \<longrightarrow>
         IsValid (fst (GenerateNewID w)) \<and> unat (fst (GenerateNewID w)) = Suc (Issued w)) \<and>
      (Issued w < 2 ^ 64 \<longrightarrow>
         (\<forall>E\<in>set (Entries w). IsValid (Handle E)) \<and> distinct (map Handle (Entries w))))"
proof (intro conjI)
  show "fst (GenerateNewID (initial alive :: 'a world)) = 1"
    by (simp add: GenerateNewID_def initial_def)
  show "fst (GenerateNewID (snd (GenerateNewID v))) \<noteq> fst (GenerateNewID v)"
    by (simp add: GenerateNewID_def)
  from handles_ok_run [OF handles_ok_initial, of P xs alive] obtain w where
    w: "run P xs (initial alive :: 'a world) = Inr w" "handles_ok w" by blast
  have "IsValid (fst (GenerateNewID w)) \<and> unat (fst (GenerateNewID w)) = Suc (Issued w)"
    if "Issued w < 2 ^ 64 - 1"
  proof -
    from that have lt: "Suc (Issued w) < 2 ^ 64" by simp
    from w(2) have "fst (GenerateNewID w) = of_nat (Suc (Issued w))"
      by (simp add: handles_ok_def GenerateNewID_def)
    with unat_of_nat64 [OF lt] of_nat64_Suc_neq_0 [OF lt] show ?thesis
      by (simp add: IsValid_def)
  qed
  moreover have "(\<forall>E\<in>set (Entries w). IsValid (Handle E)) \<and> distinct (map Handle (Entries w))"
    if "Issued w < 2 ^ 64"
    using that w(2) by (simp add: handles_ok_def IsValid_def)
  ultimately show "\<exists>w. run P xs (initial alive :: 'a world) = Inr w \<and>
      (Issued w < 2 ^ 64 - 1 \<longrightarrow>
         IsValid (fst (GenerateNewID w)) \<and> unat (fst (GenerateNewID w)) = Suc (Issued w)) \<and>
      (Issued w < 2 ^ 64 \<longrightarrow>
         (\<forall>E\<in>set (Entries w). IsValid (Handle E)) \<and> distinct (map Handle (Entries w)))"
    using w(1) by blast
qed

theorem handles_unique_before_wrap_witness:
  "fst (GenerateNewID (initial {9} :: health world)) = 1 \<and>
   fst (GenerateNewID (snd (GenerateNewID subscribed))) \<noteq> fst (GenerateNewID subscribed) \<and>
   run Unsubscriber
     [Client (CallAddRaw 7 1), Client (CallAddRaw 7 2), Client (CallAddRaw 8 1),
      Client (CallAddWeak 9 1), ClientBroadcast (100, 50, -50)] (initial {9}) = Inr unsubscribed \<and>
   Issued unsubscribed < 2 ^ 64 - 1 \<and>
   IsValid (fst (GenerateNewID unsubscribed)) \<and>
   unat (fst (GenerateNewID unsubscribed)) = 5 \<and>
   list_all (\<lambda>E. IsValid (Handle E)) (Entries unsubscribed) \<and>
   distinct (map Handle (Entries unsubscribed))"
proof -
  have i: "Issued unsubscribed = 4" by (simp add: unsubscribed_def subscribed_def)
  then have lt: "Issued unsubscribed < 2 ^ 64 - 1" "Issued unsubscribed < 2 ^ 64" by simp_all
  from handles_unique_before_wrap [of "{9}" subscribed Unsubscriber
      "[Client (CallAddRaw 7 1), Client (CallAddRaw 7 2), Client (CallAddRaw 8 1),
        Client (CallAddWeak 9 1), ClientBroadcast (100, 50, -50)]"]
    run_unsubscribed lt
  have "fst (GenerateNewID (initial {9} :: health world)) = 1"
    "fst (GenerateNewID (snd (GenerateNewID subscribed))) \<noteq> fst (GenerateNewID subscribed)"
    "IsValid (fst (GenerateNewID unsubscribed))"
    "unat (fst (GenerateNewID unsubscribed)) = Suc (Issued unsubscribed)"
    "\<forall>E\<in>set (Entries unsubscribed). IsValid (Handle E)"
    "distinct (map Handle (Entries unsubscribed))"
    by auto
  with i lt(1) run_unsubscribed show ?thesis by (simp add: list_all_iff)
qed

text \<open>
  The claim as stated has no bound. The counter is a 64-bit unsigned integer and
  \<^verbatim>\<open>fetch_add\<close> wraps: after \<open>2 ^ 64 - 1\<close> generated handles the next one is 0, the
  invalid handle; and a delegate that registered its first entry at the start of the
  process and registers another one \<open>2 ^ 64 - 2\<close> generated handles later stores the
  handle 1 twice.
\<close>

theorem handles_unique_counterexample:
  "run Observers (replicate (2 ^ 64 - 1) (Client BindElsewhere)) (initial {}) = Inr wrapped \<and>
   fst (GenerateNewID wrapped) = 0 \<and>
   run Observers
     (Client (CallAddStatic 5) # replicate (2 ^ 64 - 2) (Client BindElsewhere)
        @ [Client (CallAddStatic 6)])
     (initial {}) = Inr collided \<and>
   map Handle (Entries collided) = [1, 1]"
proof (intro conjI)
  show "fst (GenerateNewID wrapped) = 0" by (simp add: wrapped_def GenerateNewID_def)
  show "map Handle (Entries collided) = [1, 1]" by (simp add: collided_def)
qed (rule run_wrapped run_collided)+

section \<open>Bulk removal by owner\<close>

text \<open>
  C5. For every multicast delegate, \<^verbatim>\<open>RemoveAll\<close> with a null owner removes nothing
  (the whole state is unchanged), and \<^verbatim>\<open>RemoveAll\<close> with a non-null owner removes
  exactly the entries whose recorded owner equals it: what remains is the sequence of
  the other entries, in their original relative order.
\<close>

theorem RemoveAll_exact:
  "RemoveAll nullptr w = w \<and>
   (InOwner \<noteq> nullptr \<longrightarrow>
      RemoveAll InOwner w = w\<lparr>Entries := filter (\<lambda>E. Owner E \<noteq> InOwner) (Entries w)\<rparr>)"
  by (simp add: RemoveAll_def erase_remove_if_filter)

theorem RemoveAll_exact_witness:
  "RemoveAll nullptr subscribed = subscribed \<and>
   (7::nat) \<noteq> nullptr \<and>
   Entries (RemoveAll 7 subscribed) = [Hud, Session]"
proof -
  have o: "Owner Logger1 = 7" "Owner Logger2 = 7" "Owner Hud = 8" "Owner Session = 0"
    by (simp_all add: Logger1_def Logger2_def Hud_def Session_def)
  have "Entries subscribed = [Logger1, Logger2, Hud, Session]" by (simp add: subscribed_def)
  with o show ?thesis using RemoveAll_exact [of subscribed 7] by simp
qed

section \<open>Removal by handle\<close>

text \<open>
  C6. For every multicast delegate (in particular every one reached by a sequence of
  Add and Remove calls) and every handle \<open>h\<close>: when no entry has the handle \<open>h\<close>,
  \<^verbatim>\<open>Remove\<close> changes nothing; when some entry has it, \<^verbatim>\<open>Remove\<close> removes exactly
  one entry, the first whose handle equals \<open>h\<close>, and keeps all others in place; and
  when the stored handles are pairwise distinct, what remains is exactly the entries
  whose handle differs from \<open>h\<close>.
\<close>

theorem Remove_exact:
  "((\<forall>E\<in>set (Entries w). Handle E \<noteq> h) \<longrightarrow> Remove h w = w) \<and>
   ((\<exists>E\<in>set (Entries w). Handle E = h) \<longrightarrow>
      (\<exists>ys E zs. Entries w = ys @ E # zs \<and> Handle E = h \<and> (\<forall>Y\<in>set ys. Handle Y \<noteq> h) \<and>
         Remove h w = w\<lparr>Entries := ys @ zs\<rparr>)) \<and>
   (distinct (map Handle (Entries w)) \<longrightarrow>
      Remove h w = w\<lparr>Entries := filter (\<lambda>E. Handle E \<noteq> h) (Entries w)\<rparr>)"
proof (intro conjI impI)
  assume "\<forall>E\<in>set (Entries w). Handle E \<noteq> h"
  then have "find_if (\<lambda>E. Handle E = h) (Entries w) = length (Entries w)"
    by (simp add: find_if_end)
  then show "Remove h w = w" by (simp add: Remove_def)
next
  assume "\<exists>E\<in>set (Entries w). Handle E = h"
  then have ne: "find_if (\<lambda>E. Handle E = h) (Entries w) \<noteq> length (Entries w)"
    by (simp add: find_if_end)
  from find_if_split [OF ne] obtain ys E zs where
    "Entries w = ys @ E # zs" "Handle E = h" "\<forall>Y\<in>set ys. Handle Y \<noteq> h"
    "erase (find_if (\<lambda>E. Handle E = h) (Entries w)) (Entries w) = ys @ zs"
    by blast
  with ne have "Entries w = ys @ E # zs \<and> Handle E = h \<and> (\<forall>Y\<in>set ys. Handle Y \<noteq> h) \<and>
      Remove h w = w\<lparr>Entries := ys @ zs\<rparr>"
    by (simp add: Remove_def)
  then show "\<exists>ys E zs. Entries w = ys @ E # zs \<and> Handle E = h \<and> (\<forall>Y\<in>set ys. Handle Y \<noteq> h) \<and>
      Remove h w = w\<lparr>Entries := ys @ zs\<rparr>"
    by blast
next
  assume d: "distinct (map Handle (Entries w))"
  show "Remove h w = w\<lparr>Entries := filter (\<lambda>E. Handle E \<noteq> h) (Entries w)\<rparr>"
  proof (cases "find_if (\<lambda>E. Handle E = h) (Entries w) = length (Entries w)")
    case True
    then have "\<forall>E\<in>set (Entries w). Handle E \<noteq> h" by (simp add: find_if_end)
    then have "filter (\<lambda>E. Handle E \<noteq> h) (Entries w) = Entries w" by (simp add: filter_id_conv)
    with True show ?thesis by (simp add: Remove_def)
  next
    case False
    from find_if_split [OF False] obtain ys E zs where
      s: "Entries w = ys @ E # zs" "Handle E = h"
      "erase (find_if (\<lambda>E. Handle E = h) (Entries w)) (Entries w) = ys @ zs"
      by blast
    from d s(1) have "distinct (map Handle (ys @ E # zs))" by simp
    from filter_first_distinct [OF this] s(1,2)
    have "filter (\<lambda>E. Handle E \<noteq> h) (Entries w) = ys @ zs" by simp
    with False s(3) show ?thesis by (simp add: Remove_def)
  qed
qed

theorem Remove_exact_witness:
  "distinct (map Handle (Entries subscribed)) \<and>
   Entries (Remove 2 subscribed) = [Logger1, Hud, Session] \<and>
   Remove 9 subscribed = subscribed"
proof -
  have h: "Handle Logger1 = 1" "Handle Logger2 = 2" "Handle Hud = 3" "Handle Session = 4"
    by (simp_all add: Logger1_def Logger2_def Hud_def Session_def)
  have e: "Entries subscribed = [Logger1, Logger2, Hud, Session]" by (simp add: subscribed_def)
  from h e have d: "distinct (map Handle (Entries subscribed))" by simp
  from h e have n: "\<forall>E\<in>set (Entries subscribed). Handle E \<noteq> 9" by simp
  from d Remove_exact [of subscribed 2] h e
  have "Entries (Remove 2 subscribed) = [Logger1, Hud, Session]" by simp
  moreover from n Remove_exact [of subscribed 9] have "Remove 9 subscribed = subscribed" by blast
  ultimately show ?thesis using d by simp
qed

section \<open>The handle of a unicast delegate\<close>

text \<open>
  C7, as amended. A unicast delegate is bound exactly when it holds an instance whose
  safety predicate holds. \<^verbatim>\<open>GetHandle\<close> returns the handle of the instance whenever
  an instance is present, whether or not it is safe at the moment, and the invalid
  handle 0 exactly when no instance is present.
\<close>

theorem GetHandle_present:
  "IsBound alive d = (\<exists>I. Instance d = Some I \<and> IsSafeToExecute alive I) \<and>
   (\<forall>I. Instance d = Some I \<longrightarrow> GetHandle d = Instance_GetHandle I) \<and>
   (Instance d = None \<longrightarrow> GetHandle d = 0)"
  by (cases "Instance d") (simp_all add: IsBound_def GetHandle_def DefaultHandle_def)

theorem GetHandle_present_witness:
  "IsBound {9} (Delegate Session) \<and>
   Instance (Delegate Session) = Some (TWeakDelegateInstance 9 1 4) \<and>
   GetHandle (Delegate Session) = 4 \<and>
   Instance (Unbind (Delegate Session)) = None \<and>
   GetHandle (Unbind (Delegate Session)) = 0"
proof -
  have i: "Instance (Delegate Session) = Some (TWeakDelegateInstance 9 1 4)"
    by (simp add: Session_def)
  have u: "Instance (Unbind (Delegate Session)) = None" by (simp add: Unbind_def)
  have s: "IsSafeToExecute {9} (TWeakDelegateInstance 9 1 4)" by (simp add: expired_def)
  from GetHandle_present [of "{9}" "Delegate Session"] i s
  have "IsBound {9} (Delegate Session)" "GetHandle (Delegate Session) = 4" by simp_all
  moreover from GetHandle_present [of "{}" "Unbind (Delegate Session)"] u
  have "GetHandle (Unbind (Delegate Session)) = 0" by simp
  ultimately show ?thesis using i u by simp
qed

text \<open>
  The claim as stated asks for the invalid handle whenever the delegate is not bound.
  A delegate bound weak to the session object is bound while the object lives; once
  the object is gone the delegate is no longer bound, and its handle is still 4.
\<close>

theorem GetHandle_counterexample:
  "IsBound {9} (Delegate Session) \<and> \<not> IsBound ({9} - {9}) (Delegate Session) \<and>
   GetHandle (Delegate Session) = 4 \<and> GetHandle (Delegate Session) \<noteq> 0"
  by (simp add: Session_def IsBound_def GetHandle_def expired_def)

section \<open>Guarded execution\<close>

text \<open>
  C8. For every unicast delegate, every binding variant and every argument list: when
  the delegate is not bound (the instance is not safe), \<^verbatim>\<open>ExecuteIfBound\<close>
  (\<^verbatim>\<open>ExecuteIfSafe\<close>) calls nothing, leaves the state as it is and returns the default
  result; when it is bound (safe), the outcome is that of \<^verbatim>\<open>Execute\<close> on the same
  arguments, which is the call of the bound function.
\<close>

theorem ExecuteIfBound_cases:
  "(\<not> IsBound (Alive w) d \<longrightarrow> ExecuteIfBound P d args w = Inr (w, RetDefault P)) \<and>
   (IsBound (Alive w) d \<longrightarrow>
      ExecuteIfBound P d args w = Execute P d args w \<and>
      (\<exists>I. Instance d = Some I \<and> Execute P d args w = Inr (call P I args w))) \<and>
   (\<not> IsSafeToExecute (Alive w) I \<longrightarrow> ExecuteIfSafe P I args w = Inr (w, RetDefault P)) \<and>
   (IsSafeToExecute (Alive w) I \<longrightarrow>
      ExecuteIfSafe P I args w = Instance_Execute P I args w \<and>
      Instance_Execute P I args w = Inr (call P I args w))"
proof (intro conjI impI)
  show "ExecuteIfBound P d args w = Inr (w, RetDefault P)" if "\<not> IsBound (Alive w) d"
    using that by (simp add: ExecuteIfBound_def)
  show "ExecuteIfBound P d args w = Execute P d args w" if "IsBound (Alive w) d"
    using that by (simp add: ExecuteIfBound_def Execute_def)
  show "\<exists>I. Instance d = Some I \<and> Execute P d args w = Inr (call P I args w)"
    if "IsBound (Alive w) d"
    using that by (cases "Instance d") (simp_all add: Execute_def IsBound_def Instance_Execute_def)
  show "ExecuteIfSafe P I args w = Inr (w, RetDefault P)" if "\<not> IsSafeToExecute (Alive w) I"
    using that by (cases I) (simp_all add: IsCompactable_def)
  show "ExecuteIfSafe P I args w = Instance_Execute P I args w" if "IsSafeToExecute (Alive w) I"
    using that by (cases I) (simp_all add: IsCompactable_def Instance_Execute_def)
  show "Instance_Execute P I args w = Inr (call P I args w)" if "IsSafeToExecute (Alive w) I"
    using that by (simp add: Instance_Execute_def)
qed

theorem ExecuteIfBound_cases_witness:
  "\<not> IsBound (Alive (perform (DestroyObject 9) subscribed)) (Delegate Session) \<and>
   ExecuteIfBound Damage (Delegate Session) (100, 50, -50) (perform (DestroyObject 9) subscribed)
     = Inr (perform (DestroyObject 9) subscribed, 0) \<and>
   IsBound (Alive subscribed) (Delegate Session) \<and>
   ExecuteIfBound Damage (Delegate Session) (100, 50, -50) subscribed
     = Execute Damage (Delegate Session) (100, 50, -50) subscribed \<and>
   Execute Damage (Delegate Session) (100, 50, -50) subscribed
     = Inr (subscribed\<lparr>Invoked := [(TWeakDelegateInstance 9 1 4, (100, 50, -50))]\<rparr>, 100) \<and>
   \<not> IsSafeToExecute (Alive subscribed) (TStaticDelegateInstance nullptr 5) \<and>
   ExecuteIfSafe Damage (TStaticDelegateInstance nullptr 5) (100, 50, -50) subscribed
     = Inr (subscribed, 0) \<and>
   IsSafeToExecute (Alive subscribed) (TLambdaDelegateInstance 3 6) \<and>
   ExecuteIfSafe Damage (TLambdaDelegateInstance 3 6) (100, 50, -50) subscribed
     = Instance_Execute Damage (TLambdaDelegateInstance 3 6) (100, 50, -50) subscribed \<and>
   Instance_Execute Damage (TLambdaDelegateInstance 3 6) (100, 50, -50) subscribed
     = Inr (subscribed\<lparr>Invoked := [(TLambdaDelegateInstance 3 6, (100, 50, -50))]\<rparr>, 100)"
proof -
  let ?gone = "perform (DestroyObject 9) subscribed"
  have i: "Instance (Delegate Session) = Some (TWeakDelegateInstance 9 1 4)"
    by (simp add: Session_def)
  have a: "Alive subscribed = {9}" "Alive ?gone = {}" "Invoked subscribed = []"
    by (simp_all add: subscribed_def)
  have r: "RetDefault Damage = 0" by (simp add: Damage_def)
  have u: "\<not> IsBound (Alive ?gone) (Delegate Session)"
    using i a by (simp add: IsBound_def expired_def)
  have b: "IsBound (Alive subscribed) (Delegate Session)"
    using i a by (simp add: IsBound_def expired_def)
  have n: "\<not> IsSafeToExecute (Alive subscribed) (TStaticDelegateInstance nullptr 5)" by simp
  have s: "IsSafeToExecute (Alive subscribed) (TLambdaDelegateInstance 3 6)" by simp
  have c: "call Damage I (100, 50, -50) subscribed
      = (subscribed\<lparr>Invoked := [(I, (100, 50, -50))]\<rparr>, 100)" for I
    using a by (simp add: call_def Damage_def)
  from ExecuteIfBound_cases [of ?gone "Delegate Session" Damage "(100, 50, -50)"
      "TStaticDelegateInstance nullptr 5"] u r
  have 1: "ExecuteIfBound Damage (Delegate Session) (100, 50, -50) ?gone = Inr (?gone, 0)"
    by simp
  from ExecuteIfBound_cases [of subscribed "Delegate Session" Damage "(100, 50, -50)"
      "TStaticDelegateInstance nullptr 5"] b n i r c
  have 2: "ExecuteIfBound Damage (Delegate Session) (100, 50, -50) subscribed
      = Execute Damage (Delegate Session) (100, 50, -50) subscribed"
    "Execute Damage (Delegate Session) (100, 50, -50) subscribed
      = Inr (subscribed\<lparr>Invoked := [(TWeakDelegateInstance 9 1 4, (100, 50, -50))]\<rparr>, 100)"
    "ExecuteIfSafe Damage (TStaticDelegateInstance nullptr 5) (100, 50, -50) subscribed
      = Inr (subscribed, 0)"
    by auto
  from ExecuteIfBound_cases [of subscribed "Delegate Session" Damage "(100, 50, -50)"
      "TLambdaDelegateInstance 3 6"] s c
  have 3: "ExecuteIfSafe Damage (TLambdaDelegateInstance 3 6) (100, 50, -50) subscribed
     = Instance_Execute Damage (TLambdaDelegateInstance 3 6) (100, 50, -50) subscribed"
   "Instance_Execute Damage (TLambdaDelegateInstance 3 6) (100, 50, -50) subscribed
     = Inr (subscribed\<lparr>Invoked := [(TLambdaDelegateInstance 3 6, (100, 50, -50))]\<rparr>, 100)"
    by simp_all
  from u b n s 1 2 3 show ?thesis by blast
qed

section \<open>Broadcast on an empty delegate\<close>

text \<open>
  C10. For every multicast delegate whose entry sequence is empty and every argument
  list, \<^verbatim>\<open>Broadcast\<close> returns at once: no bound function is called and the state is
  unchanged.
\<close>

theorem Broadcast_empty: "Entries w = [] \<Longrightarrow> Broadcast P args w = Inr w"
  by (simp add: Broadcast_def)

theorem Broadcast_empty_witness:
  "Entries (Clear subscribed) = [] \<and>
   Broadcast Unsubscriber (100, 50, -50) (Clear subscribed) = Inr (Clear subscribed)"
proof -
  have e: "Entries (Clear subscribed) = []" by (simp add: Clear_def)
  from Broadcast_empty [OF e] e show ?thesis by simp
qed

end
